theory Spec2Isabelle
  imports Main
begin

section \<open>Owner records and the owner-merge step\<close>

text \<open>
  The collection scripts \<^verbatim>\<open>getjson.py\<close> and \<^verbatim>\<open>getjson_cfbypass.py\<close> keep, for every
  item, a list of dictionaries \<^verbatim>\<open>{"name": username, "count": n}\<close>. Python integers are
  unbounded, so the count is an \<^typ>\<open>int\<close>.
\<close>

record owner =
  name :: string
  count :: int

text \<open>
  An inventory record of the owners endpoint, under the schema the scripts read it with:
  \<^verbatim>\<open>inv.get("user", {}).get("username", "")\<close>. A field is either absent (\<open>None\<close>) or
  present with the type the endpoint documents.
\<close>

record user_rec =
  username :: "string option"

record inv =
  user :: "user_rec option"

definition username_of :: "inv \<Rightarrow> string" where
  "username_of i =
     (case user i of
        None \<Rightarrow> ''''
      | Some u \<Rightarrow> (case username u of None \<Rightarrow> '''' | Some s \<Rightarrow> s))"

text \<open>
  The inner \<^verbatim>\<open>for owner in items[item_id]["owners"]: ... break ... else: append\<close> of
  \<^verbatim>\<open>process_owners\<close> (the same text in both scripts): the first entry with the name is
  incremented and the scan stops; when the scan runs off the end, a new entry is appended.
\<close>

fun merge_owner :: "owner list \<Rightarrow> string \<Rightarrow> owner list" where
  "merge_owner [] u = [\<lparr>name = u, count = 1\<rparr>]"
| "merge_owner (ow # rest) u =
     (if name ow = u then ow\<lparr>count := count ow + 1\<rparr> # rest
      else ow # merge_owner rest u)"

definition merge_inv :: "owner list \<Rightarrow> inv \<Rightarrow> owner list" where
  "merge_inv os i = merge_owner os (username_of i)"

section \<open>Python dictionaries\<close>

text \<open>
  A Python \<^verbatim>\<open>dict\<close> keeps its keys in insertion order and holds each key once, so it is
  an association list with distinct keys. \<^verbatim>\<open>d[k] = v\<close> replaces the value in place when
  the key is present and appends the pair otherwise; \<^verbatim>\<open>dict(pairs)\<close> stores the pairs
  one after the other.
\<close>

type_synonym ('k, 'v) dict = "('k \<times> 'v) list"

fun dict_set :: "('k, 'v) dict \<Rightarrow> 'k \<Rightarrow> 'v \<Rightarrow> ('k, 'v) dict" where
  "dict_set [] k v = [(k, v)]"
| "dict_set ((k', v') # d) k v =
     (if k' = k then (k', v) # d else (k', v') # dict_set d k v)"

definition dict_of :: "('k \<times> 'v) list \<Rightarrow> ('k, 'v) dict" where
  "dict_of ps = foldl (\<lambda>d (k, v). dict_set d k v) [] ps"

definition dict_get :: "('k, 'v) dict \<Rightarrow> 'k \<Rightarrow> 'v option" where
  "dict_get d k = map_of d k"

text \<open>The slice \<^verbatim>\<open>xs[:n]\<close>: a negative bound counts from the end of the list.\<close>

definition slice_to :: "int \<Rightarrow> 'a list \<Rightarrow> 'a list" where
  "slice_to n xs =
     (if 0 \<le> n then take (nat n) xs else take (length xs - nat (- n)) xs)"

section \<open>The reporting script: sorting and the Others bucket\<close>

text \<open>
  \<^verbatim>\<open>main.py\<close>, \<^verbatim>\<open>aggregate_others(user_counts, top_n=10)\<close>.
\<close>

definition aggregate_others :: "(string, int) dict \<Rightarrow> int \<Rightarrow> (string, int) dict" where
  "aggregate_others user_counts top_n =
     (let total = sum_list (map snd user_counts) in
      if int (length user_counts) \<le> top_n then user_counts
      else
        let top_n_dict = dict_of (slice_to top_n user_counts);
            others_count = total - sum_list (map snd top_n_dict)
        in dict_set top_n_dict ''Others'' others_count)"

text \<open>
  \<^verbatim>\<open>dict(sorted(user_counts.items(), key=lambda x: x[1], reverse=True))\<close> in \<^verbatim>\<open>main\<close>:
  Python's sort is stable, also with \<^verbatim>\<open>reverse=True\<close>, so entries with equal counts keep
  their order. Insertion sort on the negated count is the same order.
\<close>

definition sorted_counts :: "(string, int) dict \<Rightarrow> (string, int) dict" where
  "sorted_counts user_counts = dict_of (sort_key (\<lambda>x. - snd x) user_counts)"

section \<open>The world of the collection scripts\<close>

text \<open>
  An item id is whatever \<^verbatim>\<open>entry.get("id")\<close> gives: an integer, a string, or
  \<^verbatim>\<open>None\<close> when the entry has no id.
\<close>

datatype item_id = IdNone | IdInt int | IdStr string

text \<open>The value \<^verbatim>\<open>{"name": name, "owners": [...]}\<close> stored for an item.\<close>

record item =
  item_name :: string
  owners :: "owner list"

text \<open>
  The parsed JSON documents, under the schema the scripts read them with: every field is
  absent (\<open>None\<close>) or present with the type the endpoint documents. One record serves
  both endpoints, since each loop only looks its own keys up in the dictionary it gets.
\<close>

record entry =
  entry_id :: item_id
  entry_name :: "string option"

record meta_rec =
  lastPage :: "int option"

record page_doc =
  data :: "entry list option"
  meta :: "meta_rec option"
  inventories :: "inv list option"
  pages :: "int option"

text \<open>
  A response body is text; the scripts only parse it. It is modelled by what the JSON
  parser makes of it: a decoding error or a document.
\<close>

datatype body = Unparsable | Parsed page_doc

datatype request = ItemsPage int | OwnersPage item_id int

text \<open>
  What the scripts do to the outside: the requests they send and the pauses they make
  (in milliseconds), in order. \<open>clock\<close> counts the requests sent so far; the network's
  answer to a request may depend on it, so a server can answer the same request
  differently the second time. \<open>items\<close> is the module's global dictionary.
\<close>

datatype event = Request request | Sleep nat

record world =
  items :: "(item_id, item) dict"
  trace :: "event list"
  clock :: nat

datatype py_error = KeyError

definition send :: "request \<Rightarrow> world \<Rightarrow> world" where
  "send rq w = w\<lparr>trace := trace w @ [Request rq], clock := Suc (clock w)\<rparr>"

definition sleep :: "nat \<Rightarrow> world \<Rightarrow> world" where
  "sleep ms w = w\<lparr>trace := trace w @ [Sleep ms]\<rparr>"

definition RATE_LIMIT_DELAY :: nat where
  "RATE_LIMIT_DELAY = 10000"

definition PAGE_DELAY :: nat where
  "PAGE_DELAY = 600"

text \<open>Reading a trace: the requests of a run, and the item pages among them.\<close>

fun requests_in :: "event list \<Rightarrow> request list" where
  "requests_in [] = []"
| "requests_in (Request r # es) = r # requests_in es"
| "requests_in (Sleep ms # es) = requests_in es"

definition requests_sent :: "world \<Rightarrow> request list" where
  "requests_sent w = requests_in (trace w)"

fun item_pages_in :: "request list \<Rightarrow> int list" where
  "item_pages_in [] = []"
| "item_pages_in (ItemsPage p # rs) = p # item_pages_in rs"
| "item_pages_in (OwnersPage i p # rs) = item_pages_in rs"

definition item_pages :: "world \<Rightarrow> int list" where
  "item_pages w = item_pages_in (requests_sent w)"

text \<open>
  A failed round on a request: the request is sent and a pause of ten seconds follows.
  \<open>rounds rq n w\<close> is the world after \<open>n\<close> such rounds.
\<close>

fun rounds :: "request \<Rightarrow> nat \<Rightarrow> world \<Rightarrow> world" where
  "rounds rq 0 w = w"
| "rounds rq (Suc n) w = rounds rq n (sleep 10000 (send rq w))"

section \<open>Processing one owners page (both scripts)\<close>

text \<open>
  \<^verbatim>\<open>items[item_id]["owners"]\<close> raises \<^verbatim>\<open>KeyError\<close> when the item was never registered.
\<close>

definition add_owner ::
  "(item_id, item) dict \<Rightarrow> item_id \<Rightarrow> inv \<Rightarrow> py_error + (item_id, item) dict" where
  "add_owner its iid i =
     (case dict_get its iid of
        None \<Rightarrow> Inl KeyError
      | Some it \<Rightarrow> Inr (dict_set its iid (it\<lparr>owners := merge_inv (owners it) i\<rparr>)))"

fun add_owners ::
  "(item_id, item) dict \<Rightarrow> item_id \<Rightarrow> inv list \<Rightarrow> py_error + (item_id, item) dict" where
  "add_owners its iid [] = Inr its"
| "add_owners its iid (i # rest) =
     (case add_owner its iid i of
        Inl e \<Rightarrow> Inl e
      | Inr its' \<Rightarrow> add_owners its' iid rest)"

text \<open>
  The part of the loop body of \<^verbatim>\<open>process_owners\<close> after the page has been parsed
  (\<^verbatim>\<open>getjson.py\<close> lines 118 to 135, \<^verbatim>\<open>getjson_cfbypass.py\<close> lines 167 to 184, the same
  text): leave the loop, go on to the next page, or raise.
\<close>

datatype verdict = Stop world | Advance world | Fail py_error

definition owners_page :: "item_id \<Rightarrow> int \<Rightarrow> page_doc \<Rightarrow> world \<Rightarrow> verdict" where
  "owners_page iid page d w =
     (let invs = (case inventories d of None \<Rightarrow> [] | Some l \<Rightarrow> l) in
      if invs = [] then Stop w
      else
        (case add_owners (items w) iid invs of
           Inl e \<Rightarrow> Fail e
         | Inr its \<Rightarrow>
             (let pgs = (case pages d of None \<Rightarrow> 0 | Some n \<Rightarrow> n) in
              if page \<ge> pgs then Stop (w\<lparr>items := its\<rparr>)
              else Advance (w\<lparr>items := its\<rparr>))))"

text \<open>
  \<^verbatim>\<open>items[item_id] = {"name": entry.get("name", ""), "owners": []}\<close>
\<close>

definition register :: "entry \<Rightarrow> world \<Rightarrow> world" where
  "register e w =
     w\<lparr>items := dict_set (items w) (entry_id e)
          \<lparr>item_name = (case entry_name e of None \<Rightarrow> '''' | Some n \<Rightarrow> n), owners = []\<rparr>\<rparr>"

definition last_page_of :: "page_doc \<Rightarrow> int \<Rightarrow> int" where
  "last_page_of d page =
     (case meta d of
        None \<Rightarrow> page
      | Some m \<Rightarrow> (case lastPage m of None \<Rightarrow> page | Some n \<Rightarrow> n))"

section \<open>Direct mode: getjson.py\<close>

text \<open>
  The network answers a request with a status code and a body. A loop that may run for
  ever is a partial function into \<open>option\<close>: \<open>None\<close> is the run that never returns.
  The result of a run that returns is the exception raised or the world left behind.
\<close>

record response =
  status_code :: int
  url :: request
  body :: body

type_synonym net = "nat \<Rightarrow> request \<Rightarrow> int \<times> body"

definition requests_get :: "net \<Rightarrow> request \<Rightarrow> world \<Rightarrow> response \<times> world" where
  "requests_get net rq w =
     (case net (clock w) rq of
        (st, b) \<Rightarrow>
          (\<lparr>status_code = st, url = rq, body = b\<rparr>, send rq w))"

definition fetch_items :: "net \<Rightarrow> int \<Rightarrow> world \<Rightarrow> response \<times> world" where
  "fetch_items net page w = requests_get net (ItemsPage page) w"

definition fetch_owners :: "net \<Rightarrow> item_id \<Rightarrow> int \<Rightarrow> world \<Rightarrow> response \<times> world" where
  "fetch_owners net iid page w = requests_get net (OwnersPage iid page) w"

partial_function (option) handle_rate_limit ::
  "net \<Rightarrow> response \<Rightarrow> world \<Rightarrow> (response \<times> world) option" where
  [code]: "handle_rate_limit net r w =
     (if status_code r = 429
      then (case requests_get net (url r) (sleep RATE_LIMIT_DELAY w) of
              (r', w') \<Rightarrow> handle_rate_limit net r' w')
      else Some (r, w))"

partial_function (option) owners_loop ::
  "net \<Rightarrow> item_id \<Rightarrow> int \<Rightarrow> world \<Rightarrow> (py_error + world) option" where
  [code]: "owners_loop net iid page w =
     (case fetch_owners net iid page w of
        (r0, w0) \<Rightarrow>
          (case handle_rate_limit net r0 w0 of
             None \<Rightarrow> None
           | Some (r, w1) \<Rightarrow>
               (case body r of
                  Unparsable \<Rightarrow> owners_loop net iid page (sleep RATE_LIMIT_DELAY w1)
                | Parsed d \<Rightarrow>
                    (case owners_page iid page d w1 of
                       Stop w2 \<Rightarrow> Some (Inr w2)
                     | Fail e \<Rightarrow> Some (Inl e)
                     | Advance w2 \<Rightarrow> owners_loop net iid (page + 1) (sleep PAGE_DELAY w2)))))"

definition process_owners :: "net \<Rightarrow> item_id \<Rightarrow> world \<Rightarrow> (py_error + world) option" where
  "process_owners net iid w = owners_loop net iid 1 w"

fun process_entries :: "net \<Rightarrow> entry list \<Rightarrow> world \<Rightarrow> (py_error + world) option" where
  "process_entries net [] w = Some (Inr w)"
| "process_entries net (e # es) w =
     (case process_owners net (entry_id e) (register e w) of
        None \<Rightarrow> None
      | Some (Inl err) \<Rightarrow> Some (Inl err)
      | Some (Inr w') \<Rightarrow> process_entries net es w')"

partial_function (option) items_loop ::
  "net \<Rightarrow> int \<Rightarrow> world \<Rightarrow> (py_error + world) option" where
  [code]: "items_loop net page w =
     (case fetch_items net page w of
        (r0, w0) \<Rightarrow>
          (case handle_rate_limit net r0 w0 of
             None \<Rightarrow> None
           | Some (r, w1) \<Rightarrow>
               (case body r of
                  Unparsable \<Rightarrow> items_loop net page (sleep RATE_LIMIT_DELAY w1)
                | Parsed d \<Rightarrow>
                    (case process_entries net (case data d of None \<Rightarrow> [] | Some l \<Rightarrow> l) w1 of
                       None \<Rightarrow> None
                     | Some (Inl err) \<Rightarrow> Some (Inl err)
                     | Some (Inr w2) \<Rightarrow>
                         (if page \<ge> last_page_of d page then Some (Inr w2)
                          else items_loop net (page + 1) (sleep PAGE_DELAY w2))))))"

definition process_all_items :: "net \<Rightarrow> world \<Rightarrow> (py_error + world) option" where
  "process_all_items net w = items_loop net 1 w"

section \<open>Bypass mode: getjson_cfbypass.py\<close>

text \<open>
  The proxy answers with an envelope: text that does not decode as JSON
  (\<^verbatim>\<open>JSONDecodeError\<close>), a document without \<^verbatim>\<open>solution\<close> or \<^verbatim>\<open>response\<close>
  (\<^verbatim>\<open>KeyError\<close>), or the solution text, here the body that is left once the markup is
  stripped.
\<close>

datatype envelope = Undecodable | Missing_field | Solution body

type_synonym proxy = "nat \<Rightarrow> request \<Rightarrow> envelope"

definition requests_post :: "proxy \<Rightarrow> request \<Rightarrow> world \<Rightarrow> envelope \<times> world" where
  "requests_post px rq w =
     (px (clock w) rq, send rq w)"

text \<open>
  \<^verbatim>\<open>for attempt in range(1, max_retries + 1)\<close> of \<^verbatim>\<open>fetch_items\<close> and
  \<^verbatim>\<open>fetch_owners\<close>, by the number of attempts left: a solution is returned at once, both
  exceptions are caught and followed by a pause of ten seconds, and \<^verbatim>\<open>None\<close> is returned
  when no attempt is left.
\<close>

fun fetch_attempts :: "proxy \<Rightarrow> request \<Rightarrow> nat \<Rightarrow> world \<Rightarrow> body option \<times> world" where
  "fetch_attempts px rq 0 w = (None, w)"
| "fetch_attempts px rq (Suc n) w =
     (case requests_post px rq w of
        (Solution b, w1) \<Rightarrow> (Some b, w1)
      | (Undecodable, w1) \<Rightarrow> fetch_attempts px rq n (sleep 10000 w1)
      | (Missing_field, w1) \<Rightarrow> fetch_attempts px rq n (sleep 10000 w1))"

definition fetch_items_cf :: "proxy \<Rightarrow> int \<Rightarrow> world \<Rightarrow> body option \<times> world" where
  "fetch_items_cf px page w =
     (let max_retries = 5 in fetch_attempts px (ItemsPage page) max_retries w)"

definition fetch_owners_cf :: "proxy \<Rightarrow> item_id \<Rightarrow> int \<Rightarrow> world \<Rightarrow> body option \<times> world" where
  "fetch_owners_cf px iid page w =
     (let max_retries = 7 in fetch_attempts px (OwnersPage iid page) max_retries w)"

partial_function (option) owners_loop_cf ::
  "proxy \<Rightarrow> item_id \<Rightarrow> int \<Rightarrow> world \<Rightarrow> (py_error + world) option" where
  [code]: "owners_loop_cf px iid page w =
     (case fetch_owners_cf px iid page w of
        (None, w1) \<Rightarrow> Some (Inr w1)
      | (Some Unparsable, w1) \<Rightarrow> owners_loop_cf px iid page (sleep 10000 w1)
      | (Some (Parsed d), w1) \<Rightarrow>
          (case owners_page iid page d w1 of
             Stop w2 \<Rightarrow> Some (Inr w2)
           | Fail e \<Rightarrow> Some (Inl e)
           | Advance w2 \<Rightarrow> owners_loop_cf px iid (page + 1) (sleep 600 w2)))"

definition process_owners_cf :: "proxy \<Rightarrow> item_id \<Rightarrow> world \<Rightarrow> (py_error + world) option" where
  "process_owners_cf px iid w = owners_loop_cf px iid 1 w"

fun process_entries_cf :: "proxy \<Rightarrow> entry list \<Rightarrow> world \<Rightarrow> (py_error + world) option" where
  "process_entries_cf px [] w = Some (Inr w)"
| "process_entries_cf px (e # es) w =
     (case process_owners_cf px (entry_id e) (register e w) of
        None \<Rightarrow> None
      | Some (Inl err) \<Rightarrow> Some (Inl err)
      | Some (Inr w') \<Rightarrow> process_entries_cf px es w')"

partial_function (option) items_loop_cf ::
  "proxy \<Rightarrow> int \<Rightarrow> world \<Rightarrow> (py_error + world) option" where
  [code]: "items_loop_cf px page w =
     (case fetch_items_cf px page w of
        (None, w1) \<Rightarrow> items_loop_cf px (page + 1) w1
      | (Some Unparsable, w1) \<Rightarrow> items_loop_cf px page (sleep 10000 w1)
      | (Some (Parsed d), w1) \<Rightarrow>
          (case data d of
             None \<Rightarrow> items_loop_cf px (page + 1) w1
           | Some data_list \<Rightarrow>
               (case process_entries_cf px data_list w1 of
                  None \<Rightarrow> None
                | Some (Inl err) \<Rightarrow> Some (Inl err)
                | Some (Inr w2) \<Rightarrow>
                    (if page \<ge> last_page_of d page then Some (Inr w2)
                     else items_loop_cf px (page + 1) (sleep 600 w2)))))"

definition process_all_items_cf :: "proxy \<Rightarrow> world \<Rightarrow> (py_error + world) option" where
  "process_all_items_cf px w = items_loop_cf px 1 w"

section \<open>Observations and example networks\<close>

text \<open>
  An envelope the proxy fetch rejects (either exception of its \<^verbatim>\<open>except\<close> clause), and a
  direct answer that is not rate limited but does not parse.
\<close>

definition malformed :: "envelope \<Rightarrow> bool" where
  "malformed e = (case e of Solution b \<Rightarrow> False | _ \<Rightarrow> True)"

definition garbled :: "int \<times> body \<Rightarrow> bool" where
  "garbled a = (fst a \<noteq> 429 \<and> snd a = Unparsable)"

text \<open>The requests of a run that returned without an exception.\<close>

definition sent_by :: "(py_error + world) option \<Rightarrow> request list option" where
  "sent_by r = (case r of Some (Inr w) \<Rightarrow> Some (requests_sent w) | _ \<Rightarrow> None)"

text \<open>The start of a run: nothing collected, nothing sent.\<close>

definition w_init :: world where
  "w_init = \<lparr>items = [], trace = [], clock = 0\<rparr>"

definition no_fields :: page_doc where
  "no_fields = \<lparr>data = None, meta = None, inventories = None, pages = None\<rparr>"

text \<open>
  A proxy whose envelope for items page 1 never decodes and whose envelope for every owners
  page lacks the solution; other item pages are empty lists.
\<close>

definition px_skip :: proxy where
  "px_skip t rq =
     (case rq of
        ItemsPage p \<Rightarrow>
          if p = 1 then Undecodable else Solution (Parsed (no_fields\<lparr>data := Some []\<rparr>))
      | OwnersPage i p \<Rightarrow> Missing_field)"

text \<open>
  A proxy and a server whose first eight answers carry a body that is not JSON; from the
  ninth on the body is an empty document.
\<close>

definition px_garbled :: proxy where
  "px_garbled t rq = (if t < 8 then Solution Unparsable else Solution (Parsed no_fields))"

definition net_garbled :: net where
  "net_garbled t rq = (if t < 8 then (200, Unparsable) else (200, Parsed no_fields))"





text \<open>The item pages requested by a run that returned without an exception.\<close>

definition pages_by :: "(py_error + world) option \<Rightarrow> int list option" where
  "pages_by r = (case r of Some (Inr w) \<Rightarrow> Some (item_pages w) | _ \<Rightarrow> None)"

text \<open>
  Item sources that report \<open>lastPage = 3\<close> on every page. The first two carry one item per
  page, whose owners pages are empty documents. The last two, one for each mode, give the
  same answers: an empty list on every page but page 3, which has no \<open>data\<close> field.
\<close>

definition net_three :: net where
  "net_three t rq =
     (case rq of
        ItemsPage p \<Rightarrow>
          (200, Parsed (no_fields\<lparr>data := Some [\<lparr>entry_id = IdInt p, entry_name = None\<rparr>],
                                 meta := Some \<lparr>lastPage = Some 3\<rparr>\<rparr>))
      | OwnersPage i p \<Rightarrow> (200, Parsed no_fields))"

definition px_three :: proxy where
  "px_three t rq =
     (case rq of
        ItemsPage p \<Rightarrow>
          Solution (Parsed (no_fields\<lparr>data := Some [\<lparr>entry_id = IdInt p, entry_name = None\<rparr>],
                                     meta := Some \<lparr>lastPage = Some 3\<rparr>\<rparr>))
      | OwnersPage i p \<Rightarrow> Solution (Parsed no_fields))"

definition px_no_data :: proxy where
  "px_no_data t rq =
     Solution (Parsed (no_fields
       \<lparr>data := (case rq of ItemsPage p \<Rightarrow> if p = 3 then None else Some [] | OwnersPage i p \<Rightarrow> None),
        meta := Some \<lparr>lastPage = Some 3\<rparr>\<rparr>))"

definition net_no_data :: net where
  "net_no_data t rq =
     (200, Parsed (no_fields
       \<lparr>data := (case rq of ItemsPage p \<Rightarrow> if p = 3 then None else Some [] | OwnersPage i p \<Rightarrow> None),
        meta := Some \<lparr>lastPage = Some 3\<rparr>\<rparr>))"

section \<open>The snapshot store\<close>

text \<open>
  \<^verbatim>\<open>save_owners\<close> writes \<^verbatim>\<open>json.dump(items, f, indent=4)\<close>, and \<^verbatim>\<open>process_data\<close> of
  \<^verbatim>\<open>main.py\<close> reads the file back with \<^verbatim>\<open>json.load(f)\<close>. Python values and JSON documents
  are trees; a file holds a document, kept here as its tree (the characters of the
  pretty-printed text are left out). A dictionary key is an item id or a string.
\<close>

datatype py = PNone | PInt int | PStr string | PList "py list" | PDict "(item_id \<times> py) list"

datatype json = JNull | JInt int | JStr string | JArr "json list" | JObj "(string \<times> json) list"

text \<open>
  The encoder writes every dictionary key as a string: a string as it is, an integer as its
  decimal numeral, \<^verbatim>\<open>None\<close> as \<^verbatim>\<open>null\<close>.
\<close>

function str_of_nat :: "nat \<Rightarrow> string" where
  "str_of_nat n =
     (if n < 10 then [''0123456789'' ! n]
      else str_of_nat (n div 10) @ [''0123456789'' ! (n mod 10)])"
  by pat_completeness auto
termination
  by (relation "measure (\<lambda>n. n)") auto

definition str_of_int :: "int \<Rightarrow> string" where
  "str_of_int i = (if i < 0 then CHR ''-'' # str_of_nat (nat (- i)) else str_of_nat (nat i))"

fun key_str :: "item_id \<Rightarrow> string" where
  "key_str (IdStr s) = s"
| "key_str (IdInt i) = str_of_int i"
| "key_str IdNone = ''null''"

fun dumps :: "py \<Rightarrow> json" where
  "dumps PNone = JNull"
| "dumps (PInt i) = JInt i"
| "dumps (PStr s) = JStr s"
| "dumps (PList xs) = JArr (map dumps xs)"
| "dumps (PDict kvs) = JObj (map (\<lambda>(k, v). (key_str k, dumps v)) kvs)"

text \<open>
  The decoder builds every object as a dictionary with string keys; of two members with the
  same key the later value is kept.
\<close>

fun loads :: "json \<Rightarrow> py" where
  "loads JNull = PNone"
| "loads (JInt i) = PInt i"
| "loads (JStr s) = PStr s"
| "loads (JArr xs) = PList (map loads xs)"
| "loads (JObj kvs) = PDict (dict_of (map (\<lambda>(k, v). (IdStr k, loads v)) kvs))"

text \<open>The global \<^verbatim>\<open>items\<close> as the Python value it is.\<close>

definition py_of_owner :: "owner \<Rightarrow> py" where
  "py_of_owner ow = PDict [(IdStr ''name'', PStr (name ow)), (IdStr ''count'', PInt (count ow))]"

definition py_of_item :: "item \<Rightarrow> py" where
  "py_of_item it =
     PDict [(IdStr ''name'', PStr (item_name it)),
            (IdStr ''owners'', PList (map py_of_owner (owners it)))]"

definition py_of_items :: "(item_id, item) dict \<Rightarrow> py" where
  "py_of_items its = PDict (map (\<lambda>(k, it). (k, py_of_item it)) its)"

text \<open>
  The files are a map from paths to documents; opening a path for writing replaces what was
  there, and reading a path that does not exist gives nothing.
\<close>

definition save_owners :: "string \<Rightarrow> world \<Rightarrow> (string \<rightharpoonup> json) \<Rightarrow> (string \<rightharpoonup> json)" where
  "save_owners filepath w fs = fs(filepath \<mapsto> dumps (py_of_items (items w)))"

definition load_json :: "string \<Rightarrow> (string \<rightharpoonup> json) \<Rightarrow> py option" where
  "load_json file_path fs = map_option loads (fs file_path)"

text \<open>Two snapshots: one keyed by the integer id 10, one keyed by strings.\<close>

definition snap_hat :: "(item_id, item) dict" where
  "snap_hat = [(IdInt 10, \<lparr>item_name = ''Hat'', owners = [\<lparr>name = ''x'', count = 2\<rparr>]\<rparr>)]"

definition snap_str :: "(item_id, item) dict" where
  "snap_str = [(IdStr ''10'', \<lparr>item_name = ''Hat'', owners = [\<lparr>name = ''x'', count = 2\<rparr>]\<rparr>),
               (IdStr ''11'', \<lparr>item_name = ''Cap'', owners = []\<rparr>)]"

text \<open>
  A store of one page with the single item \<open>Hat\<close> of id 10, whose owners page holds two
  inventory records of user \<open>x\<close>.
\<close>

definition net_hat :: net where
  "net_hat t rq =
     (case rq of
        ItemsPage p \<Rightarrow>
          (200, Parsed (no_fields\<lparr>data := Some [\<lparr>entry_id = IdInt 10, entry_name = Some ''Hat''\<rparr>],
                                 meta := Some \<lparr>lastPage = Some 1\<rparr>\<rparr>))
      | OwnersPage i p \<Rightarrow>
          (200, Parsed (no_fields
             \<lparr>inventories := Some [\<lparr>user = Some \<lparr>username = Some ''x''\<rparr>\<rparr>,
                                   \<lparr>user = Some \<lparr>username = Some ''x''\<rparr>\<rparr>],
              pages := Some 1\<rparr>)))"

section \<open>Properties of the merge step\<close>

lemma names_merge_owner:
  "map name (merge_owner os u) =
     (if u \<in> set (map name os) then map name os else map name os @ [u])"
  by (induction os) auto

lemma sum_merge_owner:
  "sum_list (map count (merge_owner os u)) = sum_list (map count os) + 1"
  by (induction os) auto

lemma names_foldl_merge:
  "map name (foldl merge_owner [] us) = rev (remdups (rev us))"
proof (induction us rule: rev_induct)
  case Nil
  show ?case by simp
next
  case (snoc u us)
  have "set (rev (remdups (rev us))) = set us" by simp
  with snoc show ?case by (simp add: names_merge_owner)
qed

lemma sum_foldl_merge:
  "sum_list (map count (foldl merge_owner [] us)) = int (length us)"
  by (induction us rule: rev_induct) (simp_all add: sum_merge_owner)

lemma merge_owner_miss:
  "u \<notin> name ` set os \<Longrightarrow> merge_owner os u = os @ [\<lparr>name = u, count = 1\<rparr>]"
  by (induction os) auto

lemma merge_owner_hit:
  "u \<in> name ` set os \<Longrightarrow>
     \<exists>pre ow post. os = pre @ ow # post \<and> u \<notin> name ` set pre \<and> name ow = u \<and>
        merge_owner os u = pre @ ow\<lparr>count := count ow + 1\<rparr> # post"
proof (induction os)
  case Nil
  then show ?case by simp
next
  case (Cons a os)
  show ?case
  proof (cases "name a = u")
    case True
    then have "a # os = [] @ a # os \<and> u \<notin> name ` set [] \<and> name a = u \<and>
        merge_owner (a # os) u = [] @ a\<lparr>count := count a + 1\<rparr> # os"
      by simp
    then show ?thesis by blast
  next
    case False
    with Cons.prems have "u \<in> name ` set os" by auto
    from Cons.IH [OF this] obtain pre ow post where
      h: "os = pre @ ow # post" "u \<notin> name ` set pre" "name ow = u"
         "merge_owner os u = pre @ ow\<lparr>count := count ow + 1\<rparr> # post"
      by blast
    from False h have "a # os = (a # pre) @ ow # post \<and> u \<notin> name ` set (a # pre) \<and>
        name ow = u \<and>
        merge_owner (a # os) u = (a # pre) @ ow\<lparr>count := count ow + 1\<rparr> # post"
      by auto
    then show ?thesis by blast
  qed
qed

text \<open>
  C1. Merging any finite sequence of usernames, one at a time, into the empty owner list
  gives a list whose names are pairwise distinct, whose counts add up to the length of the
  sequence, and whose entries stand in the order in which each name first occurs in the
  sequence (\<open>remdups\<close> keeps the last copy of each element, so on the reversed
  sequence it keeps the first occurrences).
\<close>

theorem merge_sequence_invariant:
  "distinct (map name (foldl merge_owner [] us)) \<and>
   sum_list (map count (foldl merge_owner [] us)) = int (length us) \<and>
   map name (foldl merge_owner [] us) = rev (remdups (rev us))"
  by (simp add: names_foldl_merge sum_foldl_merge)

text \<open>
  C2. The merge step on an owner list and an inventory record. The name the record is merged
  under is its username: the string of \<^verbatim>\<open>inv["user"]["username"]\<close> when the record has one,
  the empty string when the user or the username is absent. When some entry carries that
  name, the first such entry (nothing before it has the name) has its count raised by one
  and nothing else changes; otherwise an entry with that name and count 1 is appended. So a
  record without a user, without a username, or with the empty username is merged under the
  empty string and is not dropped.
\<close>

theorem merge_step_cases:
  "(if username_of i \<in> name ` set os
    then \<exists>pre ow post. os = pre @ ow # post \<and> username_of i \<notin> name ` set pre \<and>
           name ow = username_of i \<and>
           merge_inv os i = pre @ ow\<lparr>count := count ow + 1\<rparr> # post
    else merge_inv os i = os @ [\<lparr>name = username_of i, count = 1\<rparr>]) \<and>
   (user i = None \<or> (\<exists>u. user i = Some u \<and> (username u = None \<or> username u = Some ''''))
      \<longrightarrow> username_of i = '''' \<and> length (merge_inv os i) \<ge> length os \<and>
          '''' \<in> name ` set (merge_inv os i)) \<and>
   (\<forall>u s. user i = Some u \<and> username u = Some s \<longrightarrow> username_of i = s)"
proof -
  have a: "username_of i \<in> name ` set os \<Longrightarrow>
      \<exists>pre ow post. os = pre @ ow # post \<and> username_of i \<notin> name ` set pre \<and>
           name ow = username_of i \<and>
           merge_inv os i = pre @ ow\<lparr>count := count ow + 1\<rparr> # post"
    unfolding merge_inv_def by (rule merge_owner_hit)
  have b: "username_of i \<notin> name ` set os \<Longrightarrow>
      merge_inv os i = os @ [\<lparr>name = username_of i, count = 1\<rparr>]"
    unfolding merge_inv_def by (rule merge_owner_miss)
  have len: "length (merge_inv os i) \<ge> length os"
    using a b by (cases "username_of i \<in> name ` set os") auto
  have mem: "username_of i \<in> name ` set (merge_inv os i)"
  proof -
    have "username_of i \<in> set (map name (merge_inv os i))"
      unfolding merge_inv_def by (simp add: names_merge_owner del: set_map)
    then show ?thesis by simp
  qed
  have c: "user i = None \<or> (\<exists>u. user i = Some u \<and> (username u = None \<or> username u = Some ''''))
      \<Longrightarrow> username_of i = ''''"
    by (auto simp: username_of_def)
  have d: "user i = None \<or> (\<exists>u. user i = Some u \<and> (username u = None \<or> username u = Some ''''))
      \<longrightarrow> username_of i = '''' \<and> length (merge_inv os i) \<ge> length os \<and>
          '''' \<in> name ` set (merge_inv os i)"
  proof
    assume h: "user i = None \<or> (\<exists>u. user i = Some u \<and> (username u = None \<or> username u = Some ''''))"
    from c [OF h] have e: "username_of i = ''''" .
    from mem e have "'''' \<in> name ` set (merge_inv os i)" by simp
    with e len show "username_of i = '''' \<and> length (merge_inv os i) \<ge> length os \<and>
          '''' \<in> name ` set (merge_inv os i)" by simp
  qed
  have p: "\<forall>u s. user i = Some u \<and> username u = Some s \<longrightarrow> username_of i = s"
    by (simp add: username_of_def)
  have m: "if username_of i \<in> name ` set os
    then \<exists>pre ow post. os = pre @ ow # post \<and> username_of i \<notin> name ` set pre \<and>
           name ow = username_of i \<and>
           merge_inv os i = pre @ ow\<lparr>count := count ow + 1\<rparr> # post
    else merge_inv os i = os @ [\<lparr>name = username_of i, count = 1\<rparr>]"
  proof (cases "username_of i \<in> name ` set os")
    case True
    with a show ?thesis by simp
  next
    case False
    with b show ?thesis by simp
  qed
  show ?thesis by (rule conjI [OF m conjI [OF d p]])
qed

theorem merge_step_cases_witness:
  "merge_inv [\<lparr>name = ''al'', count = 1\<rparr>, \<lparr>name = ''bob'', count = 2\<rparr>, \<lparr>name = ''bob'', count = 7\<rparr>]
       \<lparr>user = Some \<lparr>username = Some ''bob''\<rparr>\<rparr>
     = [\<lparr>name = ''al'', count = 1\<rparr>, \<lparr>name = ''bob'', count = 3\<rparr>, \<lparr>name = ''bob'', count = 7\<rparr>] \<and>
   merge_inv [\<lparr>name = ''al'', count = 1\<rparr>] \<lparr>user = Some \<lparr>username = Some ''bob''\<rparr>\<rparr>
     = [\<lparr>name = ''al'', count = 1\<rparr>, \<lparr>name = ''bob'', count = 1\<rparr>] \<and>
   merge_inv [\<lparr>name = ''al'', count = 1\<rparr>, \<lparr>name = '''', count = 2\<rparr>] \<lparr>user = None\<rparr>
     = [\<lparr>name = ''al'', count = 1\<rparr>, \<lparr>name = '''', count = 3\<rparr>] \<and>
   merge_inv [\<lparr>name = ''al'', count = 1\<rparr>] \<lparr>user = Some \<lparr>username = None\<rparr>\<rparr>
     = [\<lparr>name = ''al'', count = 1\<rparr>, \<lparr>name = '''', count = 1\<rparr>]"
proof -
  let ?bob = "\<lparr>user = Some \<lparr>username = Some ''bob''\<rparr>\<rparr>"
  let ?nouser = "\<lparr>user = None\<rparr>"
  let ?noname = "\<lparr>user = Some \<lparr>username = None\<rparr>\<rparr>"
  let ?os3 = "[\<lparr>name = ''al'', count = 1\<rparr>, \<lparr>name = ''bob'', count = 2\<rparr>, \<lparr>name = ''bob'', count = 7\<rparr>]"
  let ?os1 = "[\<lparr>name = ''al'', count = 1\<rparr>]"
  let ?os2 = "[\<lparr>name = ''al'', count = 1\<rparr>, \<lparr>name = '''', count = 2\<rparr>]"
  from merge_step_cases [of ?bob ?os3] have ub: "username_of ?bob = ''bob''" by simp
  from merge_step_cases [of ?nouser ?os2] have un: "username_of ?nouser = ''''" by simp
  from merge_step_cases [of ?noname ?os1] have um: "username_of ?noname = ''''" by simp
  from merge_step_cases [of ?bob ?os1] ub
  have r2: "merge_inv ?os1 ?bob = ?os1 @ [\<lparr>name = ''bob'', count = 1\<rparr>]" by simp
  from merge_step_cases [of ?noname ?os1] um
  have r4: "merge_inv ?os1 ?noname = ?os1 @ [\<lparr>name = '''', count = 1\<rparr>]" by simp
  have r1: "merge_inv ?os3 ?bob =
      [\<lparr>name = ''al'', count = 1\<rparr>, \<lparr>name = ''bob'', count = 3\<rparr>, \<lparr>name = ''bob'', count = 7\<rparr>]"
    by (simp add: merge_inv_def ub)
  have r3: "merge_inv ?os2 ?nouser = [\<lparr>name = ''al'', count = 1\<rparr>, \<lparr>name = '''', count = 3\<rparr>]"
    by (simp add: merge_inv_def un)
  from r1 r2 r3 r4 show ?thesis by simp
qed

section \<open>Properties of the dictionary operations\<close>

lemma dict_set_fresh:
  "k \<notin> fst ` set d \<Longrightarrow> dict_set d k v = d @ [(k, v)]"
  by (induction d) auto

lemma dict_of_acc_distinct:
  "distinct (map fst (acc @ ps)) \<Longrightarrow>
     foldl (\<lambda>d (k, v). dict_set d k v) acc ps = acc @ ps"
proof (induction ps arbitrary: acc)
  case Nil
  show ?case by simp
next
  case (Cons p ps)
  obtain k v where p: "p = (k, v)" by (cases p)
  from Cons.prems p have fresh: "k \<notin> fst ` set acc" by auto
  from Cons.prems p have "distinct (map fst ((acc @ [(k, v)]) @ ps))" by simp
  from Cons.IH [OF this] fresh p show ?case by (simp add: dict_set_fresh)
qed

lemma dict_of_distinct: "distinct (map fst ps) \<Longrightarrow> dict_of ps = ps"
  using dict_of_acc_distinct [of "[]" ps] by (simp add: dict_of_def)

lemma distinct_slice_to: "distinct (map fst d) \<Longrightarrow> distinct (map fst (slice_to n d))"
  by (simp add: slice_to_def distinct_take flip: take_map)

section \<open>Properties of the reporting script\<close>

text \<open>
  Where the label \<open>Others\<close> is not among the entries kept, the bucket holds the rest and
  the total is the input's.
\<close>

lemma aggregate_others_total:
  assumes "distinct (map fst d)" and "''Others'' \<notin> fst ` set (slice_to top_n d)"
  shows "sum_list (map snd (aggregate_others d top_n)) = sum_list (map snd d)"
proof (cases "int (length d) \<le> top_n")
  case True
  then show ?thesis by (simp add: aggregate_others_def)
next
  case False
  from assms(1) have "dict_of (slice_to top_n d) = slice_to top_n d"
    by (simp add: dict_of_distinct distinct_slice_to)
  with False assms(2) show ?thesis
    by (simp add: aggregate_others_def Let_def dict_set_fresh)
qed

text \<open>
  C8. The counts \<open>alice 5, bob 3, carol 9, dave 1\<close> sorted by descending count stand in the
  order carol, alice, bob, dave, and \<open>aggregate_others\<close> with \<open>top_n = 2\<close> on the sorted
  mapping is carol 9, alice 5, Others 4.
\<close>

theorem top_n_example:
  "map fst (sorted_counts [(''alice'', 5), (''bob'', 3), (''carol'', 9), (''dave'', 1)])
     = [''carol'', ''alice'', ''bob'', ''dave''] \<and>
   aggregate_others
     (sorted_counts [(''alice'', 5), (''bob'', 3), (''carol'', 9), (''dave'', 1)]) 2
     = [(''carol'', 9), (''alice'', 5), (''Others'', 4)]"
  by (simp add: sorted_counts_def aggregate_others_def dict_of_def slice_to_def sort_key_def)

text \<open>
  C10. \<open>aggregate_others\<close> is meant to keep the total: the bucket is computed as the
  total minus the entries kept. When a kept entry is itself labelled \<open>Others\<close>, the
  assignment of the bucket overwrites it, and the total is lost: from the counts
  \<open>Others 5, a 3, b 1\<close> (total 9) and \<open>top_n = 1\<close> the result is the single entry
  \<open>Others 4\<close>.
\<close>

theorem aggregate_others_label_collision:
  "aggregate_others [(''Others'', 5), (''a'', 3), (''b'', 1)] 1 = [(''Others'', 4)] \<and>
   sum_list (map snd (aggregate_others [(''Others'', 5), (''a'', 3), (''b'', 1)] 1)) = 4 \<and>
   sum_list (map snd [(''Others'', 5), (''a'', 3), (''b'', 1 :: int)]) = 9"
  by (simp add: aggregate_others_def dict_of_def slice_to_def)

section \<open>Properties of the collection loops\<close>

lemma requests_in_append: "requests_in (xs @ ys) = requests_in xs @ requests_in ys"
  by (induction xs rule: requests_in.induct) auto

lemma item_pages_in_append: "item_pages_in (xs @ ys) = item_pages_in xs @ item_pages_in ys"
  by (induction xs rule: item_pages_in.induct) auto

lemma sleep_simps:
  "items (sleep ms w) = items w" "clock (sleep ms w) = clock w"
  "trace (sleep ms w) = trace w @ [Sleep ms]"
  "requests_sent (sleep ms w) = requests_sent w"
  "item_pages (sleep ms w) = item_pages w"
  by (simp_all add: sleep_def requests_sent_def item_pages_def requests_in_append)

lemma send_simps:
  "items (send rq w) = items w" "clock (send rq w) = Suc (clock w)"
  "trace (send rq w) = trace w @ [Request rq]"
  "requests_sent (send rq w) = requests_sent w @ [rq]"
  by (simp_all add: send_def requests_sent_def requests_in_append)

lemma rounds_simps:
  "items (rounds rq n w) = items w"
  "clock (rounds rq n w) = clock w + n"
  "trace (rounds rq n w) = trace w @ concat (replicate n [Request rq, Sleep 10000])"
  "requests_sent (rounds rq n w) = requests_sent w @ replicate n rq"
  by (induction n arbitrary: w; simp add: sleep_simps send_simps replicate_append_same)+

lemma handle_rate_limit_pass:
  "status_code r \<noteq> 429 \<Longrightarrow> handle_rate_limit net r w = Some (r, w)"
  by (subst handle_rate_limit.simps) simp

lemma fetch_attempts_all_malformed:
  "(\<forall>k<n. malformed (px (clock w + k) rq)) \<Longrightarrow> fetch_attempts px rq n w = (None, rounds rq n w)"
proof (induction n arbitrary: w)
  case 0
  show ?case by simp
next
  case (Suc n)
  from Suc.prems have m0: "malformed (px (clock w) rq)" by force
  have "\<forall>k<n. malformed (px (clock (sleep 10000 (send rq w)) + k) rq)"
  proof (intro allI impI)
    fix k assume "k < n"
    then have "Suc k < Suc n" by simp
    with Suc.prems have "malformed (px (clock w + Suc k) rq)" by blast
    then show "malformed (px (clock (sleep 10000 (send rq w)) + k) rq)"
      by (simp add: sleep_simps send_simps)
  qed
  from Suc.IH [OF this] m0 show ?case
    by (simp add: requests_post_def malformed_def split: envelope.splits)
qed

lemma fetch_attempts_bound:
  "\<exists>k\<le>n. requests_sent (snd (fetch_attempts px rq n w)) = requests_sent w @ replicate k rq \<and>
      items (snd (fetch_attempts px rq n w)) = items w"
proof (induction n arbitrary: w)
  case 0
  show ?case by simp
next
  case (Suc n)
  show ?case
  proof (cases "px (clock w) rq")
    case (Solution b)
    then have "requests_sent (snd (fetch_attempts px rq (Suc n) w)) = requests_sent w @ replicate 1 rq \<and>
      items (snd (fetch_attempts px rq (Suc n) w)) = items w"
      by (simp add: requests_post_def send_simps)
    then show ?thesis by (metis One_nat_def Suc_le_mono le0)
  next
    case Undecodable
    from Suc.IH [of "sleep 10000 (send rq w)"] obtain k where
      k: "k \<le> n" "requests_sent (snd (fetch_attempts px rq n (sleep 10000 (send rq w)))) =
         requests_sent (sleep 10000 (send rq w)) @ replicate k rq"
         "items (snd (fetch_attempts px rq n (sleep 10000 (send rq w)))) = items (sleep 10000 (send rq w))"
      by blast
    with Undecodable have "Suc k \<le> Suc n \<and> requests_sent (snd (fetch_attempts px rq (Suc n) w)) = requests_sent w @ replicate (Suc k) rq \<and>
      items (snd (fetch_attempts px rq (Suc n) w)) = items w"
      by (simp add: requests_post_def send_simps sleep_simps)
    then show ?thesis by blast
  next
    case Missing_field
    from Suc.IH [of "sleep 10000 (send rq w)"] obtain k where
      k: "k \<le> n" "requests_sent (snd (fetch_attempts px rq n (sleep 10000 (send rq w)))) =
         requests_sent (sleep 10000 (send rq w)) @ replicate k rq"
         "items (snd (fetch_attempts px rq n (sleep 10000 (send rq w)))) = items (sleep 10000 (send rq w))"
      by blast
    with Missing_field have "Suc k \<le> Suc n \<and> requests_sent (snd (fetch_attempts px rq (Suc n) w)) = requests_sent w @ replicate (Suc k) rq \<and>
      items (snd (fetch_attempts px rq (Suc n) w)) = items w"
      by (simp add: requests_post_def send_simps sleep_simps)
    then show ?thesis by blast
  qed
qed

lemma owners_loop_cf_skipped:
  "fetch_owners_cf px iid page w = (None, w1) \<Longrightarrow> owners_loop_cf px iid page w = Some (Inr w1)"
  by (subst owners_loop_cf.simps) simp

lemma items_loop_cf_skipped:
  "fetch_items_cf px page w = (None, w1) \<Longrightarrow> items_loop_cf px page w = items_loop_cf px (page + 1) w1"
  by (subst items_loop_cf.simps) simp

lemma fetch_owners_cf_first:
  "px (clock w) (OwnersPage iid page) = Solution b \<Longrightarrow>
     fetch_owners_cf px iid page w = (Some b, send (OwnersPage iid page) w)"
  by (simp add: fetch_owners_cf_def eval_nat_numeral requests_post_def)

lemma fetch_items_cf_first:
  "px (clock w) (ItemsPage page) = Solution b \<Longrightarrow>
     fetch_items_cf px page w = (Some b, send (ItemsPage page) w)"
  by (simp add: fetch_items_cf_def eval_nat_numeral requests_post_def)

lemma shift_bound:
  "\<forall>k<Suc n. P (clock w + k) \<Longrightarrow> \<forall>k<n. P (clock (sleep ms (send rq w)) + k)"
proof (intro allI impI)
  fix k assume a: "\<forall>k<Suc n. P (clock w + k)" and b: "k < n"
  from b have "Suc k < Suc n" by simp
  with a have "P (clock w + Suc k)" by blast
  then show "P (clock (sleep ms (send rq w)) + k)" by (simp add: sleep_simps send_simps)
qed

lemma owners_loop_cf_retry:
  "(\<forall>k<n. px (clock w + k) (OwnersPage iid page) = Solution Unparsable) \<Longrightarrow>
     owners_loop_cf px iid page w = owners_loop_cf px iid page (rounds (OwnersPage iid page) n w)"
proof (induction n arbitrary: w)
  case 0
  show ?case by simp
next
  case (Suc n)
  from Suc.prems have "px (clock w) (OwnersPage iid page) = Solution Unparsable" by force
  then have "owners_loop_cf px iid page w =
      owners_loop_cf px iid page (sleep 10000 (send (OwnersPage iid page) w))"
    by (subst owners_loop_cf.simps) (simp add: fetch_owners_cf_first)
  also have "\<dots> = owners_loop_cf px iid page
      (rounds (OwnersPage iid page) n (sleep 10000 (send (OwnersPage iid page) w)))"
    by (rule Suc.IH) (rule shift_bound [OF Suc.prems])
  finally show ?case by simp
qed

lemma items_loop_cf_retry:
  "(\<forall>k<n. px (clock w + k) (ItemsPage page) = Solution Unparsable) \<Longrightarrow>
     items_loop_cf px page w = items_loop_cf px page (rounds (ItemsPage page) n w)"
proof (induction n arbitrary: w)
  case 0
  show ?case by simp
next
  case (Suc n)
  from Suc.prems have "px (clock w) (ItemsPage page) = Solution Unparsable" by force
  then have "items_loop_cf px page w =
      items_loop_cf px page (sleep 10000 (send (ItemsPage page) w))"
    by (subst items_loop_cf.simps) (simp add: fetch_items_cf_first)
  also have "\<dots> = items_loop_cf px page
      (rounds (ItemsPage page) n (sleep 10000 (send (ItemsPage page) w)))"
    by (rule Suc.IH) (rule shift_bound [OF Suc.prems])
  finally show ?case by simp
qed

lemma owners_loop_retry:
  "(\<forall>k<n. garbled (net (clock w + k) (OwnersPage iid page))) \<Longrightarrow>
     owners_loop net iid page w = owners_loop net iid page (rounds (OwnersPage iid page) n w)"
proof (induction n arbitrary: w)
  case 0
  show ?case by simp
next
  case (Suc n)
  from Suc.prems have "garbled (net (clock w) (OwnersPage iid page))" by force
  then obtain st where "net (clock w) (OwnersPage iid page) = (st, Unparsable)" and "st \<noteq> 429"
    by (cases "net (clock w) (OwnersPage iid page)") (simp add: garbled_def)
  then have "owners_loop net iid page w =
      owners_loop net iid page (sleep 10000 (send (OwnersPage iid page) w))"
    by (subst owners_loop.simps)
       (simp add: fetch_owners_def requests_get_def garbled_def handle_rate_limit_pass
          RATE_LIMIT_DELAY_def split: prod.splits)
  also have "\<dots> = owners_loop net iid page
      (rounds (OwnersPage iid page) n (sleep 10000 (send (OwnersPage iid page) w)))"
    by (rule Suc.IH) (rule shift_bound [OF Suc.prems])
  finally show ?case by simp
qed

lemma items_loop_retry:
  "(\<forall>k<n. garbled (net (clock w + k) (ItemsPage page))) \<Longrightarrow>
     items_loop net page w = items_loop net page (rounds (ItemsPage page) n w)"
proof (induction n arbitrary: w)
  case 0
  show ?case by simp
next
  case (Suc n)
  from Suc.prems have "garbled (net (clock w) (ItemsPage page))" by force
  then obtain st where "net (clock w) (ItemsPage page) = (st, Unparsable)" and "st \<noteq> 429"
    by (cases "net (clock w) (ItemsPage page)") (simp add: garbled_def)
  then have "items_loop net page w =
      items_loop net page (sleep 10000 (send (ItemsPage page) w))"
    by (subst items_loop.simps)
       (simp add: fetch_items_def requests_get_def garbled_def handle_rate_limit_pass
          RATE_LIMIT_DELAY_def split: prod.splits)
  also have "\<dots> = items_loop net page
      (rounds (ItemsPage page) n (sleep 10000 (send (ItemsPage page) w)))"
    by (rule Suc.IH) (rule shift_bound [OF Suc.prems])
  finally show ?case by simp
qed

lemma dict_get_set_same: "dict_get (dict_set d k v) k = Some v"
  by (induction d) (auto simp: dict_get_def)

lemma dict_get_set_other: "k' \<noteq> k \<Longrightarrow> dict_get (dict_set d k v) k' = dict_get d k'"
  by (induction d) (auto simp: dict_get_def)

lemma dict_set_twice: "dict_set (dict_set d k a) k b = dict_set d k b"
  by (induction d) auto

lemma keys_dict_set_present:
  "dict_get d k = Some a \<Longrightarrow> map fst (dict_set d k v) = map fst d"
  by (induction d) (auto simp: dict_get_def split: if_splits)

lemma add_owners_present:
  "dict_get its iid = Some it \<Longrightarrow>
     \<exists>its'. add_owners its iid invs = Inr its' \<and>
            dict_get its' iid = Some (it\<lparr>owners := foldl merge_inv (owners it) invs\<rparr>) \<and>
            map fst its' = map fst its"
proof (induction invs arbitrary: its it)
  case Nil
  then show ?case by simp
next
  case (Cons i invs)
  let ?it1 = "it\<lparr>owners := merge_inv (owners it) i\<rparr>"
  let ?its1 = "dict_set its iid ?it1"
  have g: "dict_get ?its1 iid = Some ?it1" by (rule dict_get_set_same)
  from Cons.IH [OF g] obtain its' where
    h: "add_owners ?its1 iid invs = Inr its'"
       "dict_get its' iid = Some (?it1\<lparr>owners := foldl merge_inv (owners ?it1) invs\<rparr>)"
       "map fst its' = map fst ?its1"
    by blast
  from Cons.prems h keys_dict_set_present [OF Cons.prems, of ?it1]
  have "add_owners its iid (i # invs) = Inr its' \<and>
        dict_get its' iid = Some (it\<lparr>owners := foldl merge_inv (owners it) (i # invs)\<rparr>) \<and>
        map fst its' = map fst its"
    by (simp add: add_owner_def)
  then show ?case by blast
qed


lemma owners_loop_cf_empty:
  "fetch_owners_cf px iid page w = (Some (Parsed d), w1) \<Longrightarrow>
   inventories d = None \<or> inventories d = Some [] \<Longrightarrow>
   owners_loop_cf px iid page w = Some (Inr w1)"
  by (subst owners_loop_cf.simps) (auto simp: owners_page_def)

lemma owners_loop_empty:
  "fetch_owners net iid page w = (r0, w0) \<Longrightarrow> handle_rate_limit net r0 w0 = Some (r, w1) \<Longrightarrow>
   body r = Parsed d \<Longrightarrow> inventories d = None \<or> inventories d = Some [] \<Longrightarrow>
   owners_loop net iid page w = Some (Inr w1)"
  by (subst owners_loop.simps) (auto simp: owners_page_def)



lemma items_loop_cf_parsed:
  "fetch_items_cf px page w = (Some (Parsed d), w1) \<Longrightarrow> data d = Some es \<Longrightarrow>
   process_entries_cf px es w1 = Some (Inr w2) \<Longrightarrow>
   items_loop_cf px page w =
     (if last_page_of d page \<le> page then Some (Inr w2)
      else items_loop_cf px (page + 1) (sleep 600 w2))"
  by (subst items_loop_cf.simps) simp

lemma items_loop_cf_no_data:
  "fetch_items_cf px page w = (Some (Parsed d), w1) \<Longrightarrow> data d = None \<Longrightarrow>
   items_loop_cf px page w = items_loop_cf px (page + 1) w1"
  by (subst items_loop_cf.simps) simp

lemma owners_loop_parsed:
  "fetch_owners net iid page w = (r0, w0) \<Longrightarrow> handle_rate_limit net r0 w0 = Some (r, w1) \<Longrightarrow>
   body r = Parsed d \<Longrightarrow>
   owners_loop net iid page w =
     (case owners_page iid page d w1 of
        Stop w2 \<Rightarrow> Some (Inr w2)
      | Advance w2 \<Rightarrow> owners_loop net iid (page + 1) (sleep PAGE_DELAY w2)
      | Fail e \<Rightarrow> Some (Inl e))"
  by (subst owners_loop.simps) simp

lemma items_loop_parsed:
  "fetch_items net page w = (r0, w0) \<Longrightarrow> handle_rate_limit net r0 w0 = Some (r, w1) \<Longrightarrow>
   body r = Parsed d \<Longrightarrow>
   process_entries net (case data d of None \<Rightarrow> [] | Some l \<Rightarrow> l) w1 = Some (Inr w2) \<Longrightarrow>
   items_loop net page w =
     (if last_page_of d page \<le> page then Some (Inr w2)
      else items_loop net (page + 1) (sleep PAGE_DELAY w2))"
  by (subst items_loop.simps) simp

text \<open>
  C5. In bypass mode one fetch sends its request at most 5 times for an item page and at
  most 7 times for an owners page. When every one of these envelopes is malformed, the fetch
  returns \<^verbatim>\<open>None\<close> (each attempt followed by its pause, no exception); the items loop then
  goes on with the next page, and the owners loop returns, leaving the items as they were.
\<close>

theorem bypass_retry_caps:
  "(\<exists>k\<le>5. requests_sent (snd (fetch_items_cf px page w)) =
            requests_sent w @ replicate k (ItemsPage page)) \<and>
   (\<exists>k\<le>7. requests_sent (snd (fetch_owners_cf px iid page w)) =
            requests_sent w @ replicate k (OwnersPage iid page)) \<and>
   ((\<forall>k<5. malformed (px (clock w + k) (ItemsPage page))) \<longrightarrow>
      fetch_items_cf px page w = (None, rounds (ItemsPage page) 5 w) \<and>
      items_loop_cf px page w = items_loop_cf px (page + 1) (rounds (ItemsPage page) 5 w)) \<and>
   ((\<forall>k<7. malformed (px (clock w + k) (OwnersPage iid page))) \<longrightarrow>
      fetch_owners_cf px iid page w = (None, rounds (OwnersPage iid page) 7 w) \<and>
      owners_loop_cf px iid page w = Some (Inr (rounds (OwnersPage iid page) 7 w)) \<and>
      items (rounds (OwnersPage iid page) 7 w) = items w)"
proof -
  have a: "\<exists>k\<le>5. requests_sent (snd (fetch_items_cf px page w)) =
            requests_sent w @ replicate k (ItemsPage page)"
    using fetch_attempts_bound [of 5 px "ItemsPage page" w]
    by (auto simp: fetch_items_cf_def)
  have b: "\<exists>k\<le>7. requests_sent (snd (fetch_owners_cf px iid page w)) =
            requests_sent w @ replicate k (OwnersPage iid page)"
    using fetch_attempts_bound [of 7 px "OwnersPage iid page" w]
    by (auto simp: fetch_owners_cf_def)
  have c: "fetch_items_cf px page w = (None, rounds (ItemsPage page) 5 w) \<and>
      items_loop_cf px page w = items_loop_cf px (page + 1) (rounds (ItemsPage page) 5 w)"
    if h: "\<forall>k<5. malformed (px (clock w + k) (ItemsPage page))"
  proof -
    from h have "fetch_attempts px (ItemsPage page) 5 w = (None, rounds (ItemsPage page) 5 w)"
      by (rule fetch_attempts_all_malformed)
    then have f: "fetch_items_cf px page w = (None, rounds (ItemsPage page) 5 w)"
      by (simp add: fetch_items_cf_def)
    from f items_loop_cf_skipped [OF f] show ?thesis by simp
  qed
  have d: "fetch_owners_cf px iid page w = (None, rounds (OwnersPage iid page) 7 w) \<and>
      owners_loop_cf px iid page w = Some (Inr (rounds (OwnersPage iid page) 7 w)) \<and>
      items (rounds (OwnersPage iid page) 7 w) = items w"
    if h: "\<forall>k<7. malformed (px (clock w + k) (OwnersPage iid page))"
  proof -
    from h have "fetch_attempts px (OwnersPage iid page) 7 w =
        (None, rounds (OwnersPage iid page) 7 w)"
      by (rule fetch_attempts_all_malformed)
    then have f: "fetch_owners_cf px iid page w = (None, rounds (OwnersPage iid page) 7 w)"
      by (simp add: fetch_owners_cf_def)
    from f owners_loop_cf_skipped [OF f] show ?thesis by (simp add: rounds_simps)
  qed
  from a b c d show ?thesis by blast
qed

theorem bypass_retry_caps_witness:
  "fetch_items_cf px_skip 1 w_init = (None, rounds (ItemsPage 1) 5 w_init) \<and>
   items_loop_cf px_skip 1 w_init =
     Some (Inr (send (ItemsPage 2) (rounds (ItemsPage 1) 5 w_init))) \<and>
   fetch_owners_cf px_skip (IdInt 10) 1 w_init =
     (None, rounds (OwnersPage (IdInt 10) 1) 7 w_init) \<and>
   owners_loop_cf px_skip (IdInt 10) 1 w_init =
     Some (Inr (rounds (OwnersPage (IdInt 10) 1) 7 w_init))"
proof -
  have h5: "\<forall>k<5. malformed (px_skip (clock w_init + k) (ItemsPage 1))"
    by (simp add: px_skip_def malformed_def)
  have h7: "\<forall>k<7. malformed (px_skip (clock w_init + k) (OwnersPage (IdInt 10) 1))"
    by (simp add: px_skip_def malformed_def)
  let ?w5 = "rounds (ItemsPage 1) 5 w_init"
  have "px_skip (clock ?w5) (ItemsPage 2) = Solution (Parsed (no_fields\<lparr>data := Some []\<rparr>))"
    by (simp add: px_skip_def)
  then have f2: "fetch_items_cf px_skip 2 ?w5 =
      (Some (Parsed (no_fields\<lparr>data := Some []\<rparr>)), send (ItemsPage 2) ?w5)"
    by (simp add: fetch_items_cf_first)
  have next_page: "items_loop_cf px_skip (1 + 1) ?w5 = Some (Inr (send (ItemsPage 2) ?w5))"
    using items_loop_cf_parsed [OF _ _ process_entries_cf.simps(1), of px_skip 2 ?w5
        "no_fields\<lparr>data := Some []\<rparr>" "send (ItemsPage 2) ?w5"] f2
    by (simp add: last_page_of_def no_fields_def)
  from bypass_retry_caps [of px_skip 1 w_init "IdInt 10"] h5 h7 next_page
  show ?thesis by simp
qed

text \<open>
  C6, as the scripts have it. A body that does not parse makes the loop fetch the same page
  again after a pause of ten seconds, in both modes and as often as such bodies come: for
  every \<open>n\<close>, after \<open>n\<close> such answers the loop stands where it started, \<open>n\<close>
  requests and \<open>n\<close> pauses later. The caps 5 and 7 count malformed envelopes inside one
  fetch only.
\<close>

theorem parse_retries_unbounded:
  "((\<forall>k<n. px (clock w + k) (OwnersPage iid page) = Solution Unparsable) \<longrightarrow>
      owners_loop_cf px iid page w = owners_loop_cf px iid page (rounds (OwnersPage iid page) n w)) \<and>
   ((\<forall>k<n. px (clock w + k) (ItemsPage page) = Solution Unparsable) \<longrightarrow>
      items_loop_cf px page w = items_loop_cf px page (rounds (ItemsPage page) n w)) \<and>
   ((\<forall>k<n. garbled (net (clock w + k) (OwnersPage iid page))) \<longrightarrow>
      owners_loop net iid page w = owners_loop net iid page (rounds (OwnersPage iid page) n w)) \<and>
   ((\<forall>k<n. garbled (net (clock w + k) (ItemsPage page))) \<longrightarrow>
      items_loop net page w = items_loop net page (rounds (ItemsPage page) n w)) \<and>
   trace (rounds rq n w) = trace w @ concat (replicate n [Request rq, Sleep 10000]) \<and>
   requests_sent (rounds rq n w) = requests_sent w @ replicate n rq"
  using owners_loop_cf_retry [of n px w iid page] items_loop_cf_retry [of n px w page]
    owners_loop_retry [of n net w iid page] items_loop_retry [of n net w page]
  by (simp add: rounds_simps)

theorem parse_retries_unbounded_witness:
  "owners_loop_cf px_garbled (IdInt 10) 1 w_init =
     owners_loop_cf px_garbled (IdInt 10) 1 (rounds (OwnersPage (IdInt 10) 1) 8 w_init) \<and>
   items_loop_cf px_garbled 1 w_init = items_loop_cf px_garbled 1 (rounds (ItemsPage 1) 8 w_init) \<and>
   owners_loop net_garbled (IdInt 10) 1 w_init =
     owners_loop net_garbled (IdInt 10) 1 (rounds (OwnersPage (IdInt 10) 1) 8 w_init) \<and>
   items_loop net_garbled 1 w_init = items_loop net_garbled 1 (rounds (ItemsPage 1) 8 w_init) \<and>
   requests_sent (rounds (OwnersPage (IdInt 10) 1) 8 w_init) =
     requests_sent w_init @ replicate 8 (OwnersPage (IdInt 10) 1)"
proof -
  have a: "\<forall>k<8. px_garbled (clock w_init + k) (OwnersPage (IdInt 10) 1) = Solution Unparsable"
    by (simp add: px_garbled_def w_init_def)
  have b: "\<forall>k<8. px_garbled (clock w_init + k) (ItemsPage 1) = Solution Unparsable"
    by (simp add: px_garbled_def w_init_def)
  have c: "\<forall>k<8. garbled (net_garbled (clock w_init + k) (OwnersPage (IdInt 10) 1))"
    by (simp add: net_garbled_def garbled_def w_init_def)
  have d: "\<forall>k<8. garbled (net_garbled (clock w_init + k) (ItemsPage 1))"
    by (simp add: net_garbled_def garbled_def w_init_def)
  from parse_retries_unbounded [of 8 px_garbled w_init "IdInt 10" 1 net_garbled
      "OwnersPage (IdInt 10) 1"] a b c d
  show ?thesis by blast
qed

text \<open>
  C6 as stated fails: in bypass mode the owners loop fetches page 1 nine times when the
  first eight bodies do not parse, two more than the cap of 7.
\<close>

theorem parse_retry_cap_counterexample:
  "sent_by (owners_loop_cf px_garbled (IdInt 10) 1 w_init) =
     Some [OwnersPage (IdInt 10) 1, OwnersPage (IdInt 10) 1, OwnersPage (IdInt 10) 1,
           OwnersPage (IdInt 10) 1, OwnersPage (IdInt 10) 1, OwnersPage (IdInt 10) 1,
           OwnersPage (IdInt 10) 1, OwnersPage (IdInt 10) 1, OwnersPage (IdInt 10) 1]"
proof -
  let ?rq = "OwnersPage (IdInt 10) 1"
  have a: "\<forall>k<8. px_garbled (clock w_init + k) ?rq = Solution Unparsable"
    by (simp add: px_garbled_def w_init_def)
  have b: "px_garbled (clock (rounds ?rq 8 w_init)) ?rq = Solution (Parsed no_fields)"
    by (simp add: px_garbled_def w_init_def rounds_simps)
  have "owners_loop_cf px_garbled (IdInt 10) 1 w_init =
      owners_loop_cf px_garbled (IdInt 10) 1 (rounds ?rq 8 w_init)"
    using a by (rule owners_loop_cf_retry)
  also have "\<dots> = Some (Inr (send ?rq (rounds ?rq 8 w_init)))"
  proof -
    have "fetch_owners_cf px_garbled (IdInt 10) 1 (rounds ?rq 8 w_init) =
        (Some (Parsed no_fields), send ?rq (rounds ?rq 8 w_init))"
      using b by (simp add: fetch_owners_cf_first)
    then show ?thesis by (rule owners_loop_cf_empty) (simp add: no_fields_def)
  qed
  finally have run: "owners_loop_cf px_garbled (IdInt 10) 1 w_init =
      Some (Inr (send ?rq (rounds ?rq 8 w_init)))" .
  have r8: "replicate 8 ?rq = [?rq, ?rq, ?rq, ?rq, ?rq, ?rq, ?rq, ?rq]"
    by (simp add: eval_nat_numeral)
  have "requests_sent w_init = []"
    by (simp add: requests_sent_def w_init_def)
  with run r8 show ?thesis
    by (simp add: sent_by_def send_simps rounds_simps)
qed






text \<open>
  C7. Registering an entry stores a record with an empty owners list under its id, and the
  world after registering does not depend on what was stored under that id before: the
  processing of the entry and of the rest of the page is the same whatever the earlier
  record held.
\<close>

theorem register_overwrites:
  "dict_get (items (register e w)) (entry_id e) =
     Some \<lparr>item_name = (case entry_name e of None \<Rightarrow> '''' | Some n \<Rightarrow> n), owners = []\<rparr> \<and>
   register e (w\<lparr>items := dict_set (items w) (entry_id e) old\<rparr>) =
     register e (w\<lparr>items := dict_set (items w) (entry_id e) old'\<rparr>) \<and>
   process_entries net (e # es) (w\<lparr>items := dict_set (items w) (entry_id e) old\<rparr>) =
     process_entries net (e # es) (w\<lparr>items := dict_set (items w) (entry_id e) old'\<rparr>) \<and>
   process_entries_cf px (e # es) (w\<lparr>items := dict_set (items w) (entry_id e) old\<rparr>) =
     process_entries_cf px (e # es) (w\<lparr>items := dict_set (items w) (entry_id e) old'\<rparr>)"
proof -
  have r: "register e (w\<lparr>items := dict_set (items w) (entry_id e) old\<rparr>) =
     register e (w\<lparr>items := dict_set (items w) (entry_id e) old'\<rparr>)"
    by (simp add: register_def dict_set_twice)
  have l: "dict_get (items (register e w)) (entry_id e) =
     Some \<lparr>item_name = (case entry_name e of None \<Rightarrow> '''' | Some n \<Rightarrow> n), owners = []\<rparr>"
    by (simp add: register_def dict_get_set_same)
  from r l show ?thesis by (simp del: dict_set.simps)
qed

section \<open>The items loop and the last page\<close>

lemma item_pages_simps:
  "item_pages (send (ItemsPage p) w) = item_pages w @ [p]"
  "item_pages (send (OwnersPage i p) w) = item_pages w"
  "item_pages (register e w) = item_pages w"
  "item_pages (w\<lparr>items := its\<rparr>) = item_pages w"
  by (simp_all add: item_pages_def send_def item_pages_in_append register_def
      requests_sent_def requests_in_append)

lemma item_pages_in_owner_requests:
  "item_pages_in (rs @ replicate k (OwnersPage i p)) = item_pages_in rs"
  by (induction k) (simp_all add: item_pages_in_append)

lemma fetch_owners_cf_item_pages:
  "item_pages (snd (fetch_owners_cf px iid page w)) = item_pages w"
  using fetch_attempts_bound [of 7 px "OwnersPage iid page" w]
  by (auto simp: fetch_owners_cf_def item_pages_def item_pages_in_owner_requests)

lemma owners_page_item_pages:
  "owners_page iid page d w = Stop w2 \<or> owners_page iid page d w = Advance w2 \<Longrightarrow>
     item_pages w2 = item_pages w"
  by (auto simp: owners_page_def Let_def item_pages_simps split: if_splits sum.splits)

lemma handle_rate_limit_item_pages:
  assumes run: "handle_rate_limit net r w = Some (r', w')"
    and own: "url r = OwnersPage i p"
  shows "item_pages w' = item_pages w"
proof -
  have "url r = OwnersPage i p \<longrightarrow> item_pages (snd (r', w')) = item_pages w"
  proof (rule handle_rate_limit.raw_induct
      [where P = "\<lambda>net r w res. url r = OwnersPage i p \<longrightarrow> item_pages (snd res) = item_pages w",
        OF _ run])
    fix loop :: "net \<Rightarrow> response \<Rightarrow> world \<Rightarrow> (response \<times> world) option"
      and net r w res
    assume IH: "\<And>net r w res. loop net r w = Some res \<Longrightarrow>
        url r = OwnersPage i p \<longrightarrow> item_pages (snd res) = item_pages w"
    assume bd: "(if status_code r = 429
      then (case requests_get net (url r) (sleep RATE_LIMIT_DELAY w) of
              (r', w') \<Rightarrow> loop net r' w')
      else Some (r, w)) = Some res"
    show "url r = OwnersPage i p \<longrightarrow> item_pages (snd res) = item_pages w"
    proof
      assume u: "url r = OwnersPage i p"
      show "item_pages (snd res) = item_pages w"
      proof (cases "status_code r = 429")
        case False
        with bd show ?thesis by auto
      next
        case True
        obtain r2 w2 where g: "requests_get net (url r) (sleep RATE_LIMIT_DELAY w) = (r2, w2)"
          by (cases "requests_get net (url r) (sleep RATE_LIMIT_DELAY w)")
        with u have "url r2 = OwnersPage i p" and "item_pages w2 = item_pages w"
          by (auto simp: requests_get_def item_pages_simps sleep_simps split: prod.splits)
        moreover from bd True g have "loop net r2 w2 = Some res" by simp
        ultimately show ?thesis using IH by metis
      qed
    qed
  qed
  with own show ?thesis by simp
qed

lemma owners_loop_item_pages:
  assumes run: "owners_loop net iid page w = Some (Inr w')"
  shows "item_pages w' = item_pages w"
proof -
  have "\<forall>v. (Inr w' :: py_error + world) = Inr v \<longrightarrow> item_pages v = item_pages w"
  proof (rule owners_loop.raw_induct
      [where P = "\<lambda>net iid page w res. \<forall>v. res = Inr v \<longrightarrow> item_pages v = item_pages w",
        OF _ run])
    fix loop :: "net \<Rightarrow> item_id \<Rightarrow> int \<Rightarrow> world \<Rightarrow> (py_error + world) option"
      and net iid page w res
    assume IH: "\<And>net iid page w res. loop net iid page w = Some res \<Longrightarrow>
        \<forall>v. res = Inr v \<longrightarrow> item_pages v = item_pages w"
    assume bd: "(case fetch_owners net iid page w of
        (r0, w0) \<Rightarrow>
          (case handle_rate_limit net r0 w0 of
             None \<Rightarrow> None
           | Some (r, w1) \<Rightarrow>
               (case body r of
                  Unparsable \<Rightarrow> loop net iid page (sleep RATE_LIMIT_DELAY w1)
                | Parsed d \<Rightarrow>
                    (case owners_page iid page d w1 of
                       Stop w2 \<Rightarrow> Some (Inr w2)
                     | Advance w2 \<Rightarrow> loop net iid (page + 1) (sleep PAGE_DELAY w2)
                     | Fail e \<Rightarrow> Some (Inl e))))) = Some res"
    show "\<forall>v. res = Inr v \<longrightarrow> item_pages v = item_pages w"
    proof (intro allI impI)
      fix v assume r: "res = Inr v"
      obtain r0 w0 where f: "fetch_owners net iid page w = (r0, w0)"
        by (cases "fetch_owners net iid page w")
      then have u: "url r0 = OwnersPage iid page" and p0: "item_pages w0 = item_pages w"
        by (auto simp: fetch_owners_def requests_get_def item_pages_simps split: prod.splits)
      from bd f obtain rr w1 where h: "handle_rate_limit net r0 w0 = Some (rr, w1)"
        by (cases "handle_rate_limit net r0 w0") auto
      from handle_rate_limit_item_pages [OF h u] p0 have p1: "item_pages w1 = item_pages w"
        by simp
      show "item_pages v = item_pages w"
      proof (cases "body rr")
        case Unparsable
        with bd f h have "loop net iid page (sleep RATE_LIMIT_DELAY w1) = Some res" by simp
        from IH [OF this] r p1 show ?thesis by (simp add: sleep_simps)
      next
        case (Parsed d)
        show ?thesis
        proof (cases "owners_page iid page d w1")
          case (Stop w2)
          with bd f h Parsed r have "w2 = v" by simp
          with Stop owners_page_item_pages [of iid page d w1 v] p1 show ?thesis by simp
        next
          case (Advance w2)
          with bd f h Parsed have "loop net iid (page + 1) (sleep PAGE_DELAY w2) = Some res"
            by simp
          from IH [OF this] r have "item_pages v = item_pages w2" by (simp add: sleep_simps)
          with Advance owners_page_item_pages [of iid page d w1 w2] p1 show ?thesis by simp
        next
          case (Fail e)
          with bd f h Parsed r show ?thesis by simp
        qed
      qed
    qed
  qed
  then show ?thesis by simp
qed

lemma owners_loop_cf_item_pages:
  assumes run: "owners_loop_cf px iid page w = Some (Inr w')"
  shows "item_pages w' = item_pages w"
proof -
  have "\<forall>v. (Inr w' :: py_error + world) = Inr v \<longrightarrow> item_pages v = item_pages w"
  proof (rule owners_loop_cf.raw_induct
      [where P = "\<lambda>px iid page w res. \<forall>v. res = Inr v \<longrightarrow> item_pages v = item_pages w",
        OF _ run])
    fix loop :: "proxy \<Rightarrow> item_id \<Rightarrow> int \<Rightarrow> world \<Rightarrow> (py_error + world) option"
      and px iid page w res
    assume IH: "\<And>px iid page w res. loop px iid page w = Some res \<Longrightarrow>
        \<forall>v. res = Inr v \<longrightarrow> item_pages v = item_pages w"
    assume bd: "(case fetch_owners_cf px iid page w of
        (None, w1) \<Rightarrow> Some (Inr w1)
      | (Some Unparsable, w1) \<Rightarrow> loop px iid page (sleep 10000 w1)
      | (Some (Parsed d), w1) \<Rightarrow>
          (case owners_page iid page d w1 of
             Stop w2 \<Rightarrow> Some (Inr w2)
           | Advance w2 \<Rightarrow> loop px iid (page + 1) (sleep 600 w2)
           | Fail e \<Rightarrow> Some (Inl e))) = Some res"
    show "\<forall>v. res = Inr v \<longrightarrow> item_pages v = item_pages w"
    proof (intro allI impI)
      fix v assume r: "res = Inr v"
      obtain b w1 where f: "fetch_owners_cf px iid page w = (b, w1)"
        by (cases "fetch_owners_cf px iid page w")
      with fetch_owners_cf_item_pages [of px iid page w] have p1: "item_pages w1 = item_pages w"
        by simp
      show "item_pages v = item_pages w"
      proof (cases b)
        case None
        with bd f r p1 show ?thesis by simp
      next
        case (Some bd')
        show ?thesis
        proof (cases bd')
          case Unparsable
          with bd f Some have "loop px iid page (sleep 10000 w1) = Some res" by simp
          from IH [OF this] r p1 show ?thesis by (simp add: sleep_simps)
        next
          case (Parsed d)
          show ?thesis
          proof (cases "owners_page iid page d w1")
            case (Stop w2)
            with bd f Some Parsed r have "w2 = v" by simp
            with Stop owners_page_item_pages [of iid page d w1 v] p1 show ?thesis by simp
          next
            case (Advance w2)
            with bd f Some Parsed have "loop px iid (page + 1) (sleep 600 w2) = Some res"
              by simp
            from IH [OF this] r have "item_pages v = item_pages w2" by (simp add: sleep_simps)
            with Advance owners_page_item_pages [of iid page d w1 w2] p1 show ?thesis by simp
          next
            case (Fail e)
            with bd f Some Parsed r show ?thesis by simp
          qed
        qed
      qed
    qed
  qed
  then show ?thesis by simp
qed

lemma process_entries_item_pages:
  "process_entries net es w = Some (Inr w') \<Longrightarrow> item_pages w' = item_pages w"
proof (induction es arbitrary: w)
  case Nil
  then show ?case by simp
next
  case (Cons e es)
  from Cons.prems obtain w1 where
    a: "owners_loop net (entry_id e) 1 (register e w) = Some (Inr w1)"
    and b: "process_entries net es w1 = Some (Inr w')"
    by (auto simp: process_owners_def split: option.splits sum.splits)
  from owners_loop_item_pages [OF a] Cons.IH [OF b] show ?case
    by (simp add: item_pages_simps)
qed

lemma process_entries_cf_item_pages:
  "process_entries_cf px es w = Some (Inr w') \<Longrightarrow> item_pages w' = item_pages w"
proof (induction es arbitrary: w)
  case Nil
  then show ?case by simp
next
  case (Cons e es)
  from Cons.prems obtain w1 where
    a: "owners_loop_cf px (entry_id e) 1 (register e w) = Some (Inr w1)"
    and b: "process_entries_cf px es w1 = Some (Inr w')"
    by (auto simp: process_owners_cf_def split: option.splits sum.splits)
  from owners_loop_cf_item_pages [OF a] Cons.IH [OF b] show ?case
    by (simp add: item_pages_simps)
qed

lemma last_page_of_reported:
  "meta d = Some m \<Longrightarrow> lastPage m = Some L \<Longrightarrow> last_page_of d page = L"
  by (simp add: last_page_of_def)

lemma last_page_of_missing:
  "meta d = None \<or> (\<exists>m. meta d = Some m \<and> lastPage m = None) \<Longrightarrow> last_page_of d page = page"
  by (auto simp: last_page_of_def)

lemma items_loop_pages:
  assumes src: "\<forall>t p. \<exists>st d m. net t (ItemsPage p) = (st, Parsed d) \<and> st \<noteq> 429 \<and>
                   meta d = Some m \<and> lastPage m = Some L"
    and tot: "\<forall>es v. \<exists>v'. process_entries net es v = Some (Inr v')"
  shows "page \<le> L \<Longrightarrow>
     \<exists>w'. items_loop net page w = Some (Inr w') \<and> item_pages w' = item_pages w @ [page..L]"
proof (induction "nat (L - page)" arbitrary: page w)
  case 0
  then have eq: "page = L" by simp
  from src obtain st d m where n: "net (clock w) (ItemsPage page) = (st, Parsed d)"
    "st \<noteq> 429" "meta d = Some m" "lastPage m = Some L" by blast
  let ?r = "\<lparr>status_code = st, url = ItemsPage page, body = Parsed d\<rparr>"
  let ?w1 = "send (ItemsPage page) w"
  from n have f: "fetch_items net page w = (?r, ?w1)"
    by (simp add: fetch_items_def requests_get_def)
  from n have h: "handle_rate_limit net ?r ?w1 = Some (?r, ?w1)"
    by (simp add: handle_rate_limit_pass)
  from tot obtain w2 where
    pe: "process_entries net (case data d of None \<Rightarrow> [] | Some l \<Rightarrow> l) ?w1 = Some (Inr w2)"
    by blast
  from process_entries_item_pages [OF pe] have ip: "item_pages w2 = item_pages w @ [page]"
    by (simp add: item_pages_simps)
  from items_loop_parsed [OF f h _ pe] n eq
  have "items_loop net page w = Some (Inr w2)"
    by (simp add: last_page_of_reported)
  with ip eq show ?case by simp
next
  case (Suc n)
  then have lt: "page < L" by simp
  from src obtain st d m where n: "net (clock w) (ItemsPage page) = (st, Parsed d)"
    "st \<noteq> 429" "meta d = Some m" "lastPage m = Some L" by blast
  let ?r = "\<lparr>status_code = st, url = ItemsPage page, body = Parsed d\<rparr>"
  let ?w1 = "send (ItemsPage page) w"
  from n have f: "fetch_items net page w = (?r, ?w1)"
    by (simp add: fetch_items_def requests_get_def)
  from n have h: "handle_rate_limit net ?r ?w1 = Some (?r, ?w1)"
    by (simp add: handle_rate_limit_pass)
  from tot obtain w2 where
    pe: "process_entries net (case data d of None \<Rightarrow> [] | Some l \<Rightarrow> l) ?w1 = Some (Inr w2)"
    by blast
  from process_entries_item_pages [OF pe] have ip: "item_pages w2 = item_pages w @ [page]"
    by (simp add: item_pages_simps)
  from items_loop_parsed [OF f h _ pe] n lt
  have step: "items_loop net page w = items_loop net (page + 1) (sleep PAGE_DELAY w2)"
    by (simp add: last_page_of_reported)
  from Suc.hyps(2) lt have "n = nat (L - (page + 1))" by simp
  from Suc.hyps(1) [OF this, of "sleep PAGE_DELAY w2"] lt obtain w' where
    r: "items_loop net (page + 1) (sleep PAGE_DELAY w2) = Some (Inr w')"
       "item_pages w' = item_pages (sleep PAGE_DELAY w2) @ [page + 1..L]"
    by auto
  from lt have "[page..L] = page # [page + 1..L]" by (simp add: upto_rec1)
  with r ip step have "items_loop net page w = Some (Inr w') \<and>
      item_pages w' = item_pages w @ [page..L]"
    by (simp add: sleep_simps)
  then show ?case by blast
qed

lemma items_loop_cf_pages:
  assumes src: "\<forall>t p. \<exists>d es m. px t (ItemsPage p) = Solution (Parsed d) \<and> data d = Some es \<and>
                   meta d = Some m \<and> lastPage m = Some L"
    and tot: "\<forall>es v. \<exists>v'. process_entries_cf px es v = Some (Inr v')"
  shows "page \<le> L \<Longrightarrow>
     \<exists>w'. items_loop_cf px page w = Some (Inr w') \<and> item_pages w' = item_pages w @ [page..L]"
proof (induction "nat (L - page)" arbitrary: page w)
  case 0
  then have eq: "page = L" by simp
  from src obtain d es m where n: "px (clock w) (ItemsPage page) = Solution (Parsed d)"
    "data d = Some es" "meta d = Some m" "lastPage m = Some L" by blast
  let ?w1 = "send (ItemsPage page) w"
  from n have f: "fetch_items_cf px page w = (Some (Parsed d), ?w1)"
    by (simp add: fetch_items_cf_first)
  from tot obtain w2 where pe: "process_entries_cf px es ?w1 = Some (Inr w2)"
    by blast
  from process_entries_cf_item_pages [OF pe] have ip: "item_pages w2 = item_pages w @ [page]"
    by (simp add: item_pages_simps)
  from items_loop_cf_parsed [OF f n(2) pe] n eq
  have "items_loop_cf px page w = Some (Inr w2)"
    by (simp add: last_page_of_reported)
  with ip eq show ?case by simp
next
  case (Suc n)
  then have lt: "page < L" by simp
  from src obtain d es m where n: "px (clock w) (ItemsPage page) = Solution (Parsed d)"
    "data d = Some es" "meta d = Some m" "lastPage m = Some L" by blast
  let ?w1 = "send (ItemsPage page) w"
  from n have f: "fetch_items_cf px page w = (Some (Parsed d), ?w1)"
    by (simp add: fetch_items_cf_first)
  from tot obtain w2 where pe: "process_entries_cf px es ?w1 = Some (Inr w2)"
    by blast
  from process_entries_cf_item_pages [OF pe] have ip: "item_pages w2 = item_pages w @ [page]"
    by (simp add: item_pages_simps)
  from items_loop_cf_parsed [OF f n(2) pe] n lt
  have step: "items_loop_cf px page w = items_loop_cf px (page + 1) (sleep 600 w2)"
    by (simp add: last_page_of_reported)
  from Suc.hyps(2) lt have "n = nat (L - (page + 1))" by simp
  from Suc.hyps(1) [OF this, of "sleep 600 w2"] lt obtain w' where
    r: "items_loop_cf px (page + 1) (sleep 600 w2) = Some (Inr w')"
       "item_pages w' = item_pages (sleep 600 w2) @ [page + 1..L]"
    by auto
  from lt have "[page..L] = page # [page + 1..L]" by (simp add: upto_rec1)
  with r ip step have "items_loop_cf px page w = Some (Inr w') \<and>
      item_pages w' = item_pages w @ [page..L]"
    by (simp add: sleep_simps)
  then show ?case by blast
qed

lemma process_entries_net_three:
  "\<exists>v'. process_entries net_three es v = Some (Inr v')"
proof (induction es arbitrary: v)
  case Nil
  show ?case by simp
next
  case (Cons e es)
  let ?rq = "OwnersPage (entry_id e) 1"
  let ?v0 = "register e v"
  let ?r = "\<lparr>status_code = 200, url = ?rq, body = Parsed no_fields\<rparr>"
  have f: "fetch_owners net_three (entry_id e) 1 ?v0 = (?r, send ?rq ?v0)"
    by (simp add: fetch_owners_def requests_get_def net_three_def)
  have h: "handle_rate_limit net_three ?r (send ?rq ?v0) = Some (?r, send ?rq ?v0)"
    by (simp add: handle_rate_limit_pass)
  have "owners_loop net_three (entry_id e) 1 ?v0 = Some (Inr (send ?rq ?v0))"
    using owners_loop_empty [OF f h, of no_fields] by (simp add: no_fields_def)
  with Cons.IH [of "send ?rq ?v0"] show ?case by (simp add: process_owners_def)
qed

lemma process_entries_cf_px_three:
  "\<exists>v'. process_entries_cf px_three es v = Some (Inr v')"
proof (induction es arbitrary: v)
  case Nil
  show ?case by simp
next
  case (Cons e es)
  let ?rq = "OwnersPage (entry_id e) 1"
  let ?v0 = "register e v"
  have "px_three (clock ?v0) ?rq = Solution (Parsed no_fields)"
    by (simp add: px_three_def)
  then have f: "fetch_owners_cf px_three (entry_id e) 1 ?v0 = (Some (Parsed no_fields), send ?rq ?v0)"
    by (simp add: fetch_owners_cf_first)
  have "owners_loop_cf px_three (entry_id e) 1 ?v0 = Some (Inr (send ?rq ?v0))"
    by (rule owners_loop_cf_empty [OF f]) (simp add: no_fields_def)
  with Cons.IH [of "send ?rq ?v0"] show ?case by (simp add: process_owners_cf_def)
qed

lemma upto_1_3: "[1..3] = [1, 2, 3 :: int]"
  by (simp add: upto_rec1)

lemma item_pages_w_init: "item_pages w_init = []"
  by (simp add: item_pages_def requests_sent_def w_init_def)

text \<open>
  Where every page is parsed and, in bypass mode, carries a list in \<open>data\<close>, the items loop
  returns when the page number has reached \<open>lastPage\<close> and goes on to the next page
  otherwise; an absent \<open>meta\<close> or \<open>lastPage\<close> counts as the current page, so the loop
  returns. Against such a source that reports \<open>lastPage = L\<close> on every page, and with owner
  processing that returns, the run returns having requested the item pages 1 to \<open>L\<close>, each
  once and in order.
\<close>

lemma items_loop_checks_last_page:
  "((\<forall>t p. \<exists>st d m. net t (ItemsPage p) = (st, Parsed d) \<and> st \<noteq> 429 \<and>
        meta d = Some m \<and> lastPage m = Some L) \<and>
    (\<forall>es v. \<exists>v'. process_entries net es v = Some (Inr v')) \<and> 1 \<le> L
      \<longrightarrow> (\<exists>w'. process_all_items net w = Some (Inr w') \<and>
                item_pages w' = item_pages w @ [1..L])) \<and>
   ((\<forall>t p. \<exists>d es m. px t (ItemsPage p) = Solution (Parsed d) \<and> data d = Some es \<and>
        meta d = Some m \<and> lastPage m = Some L) \<and>
    (\<forall>es v. \<exists>v'. process_entries_cf px es v = Some (Inr v')) \<and> 1 \<le> L
      \<longrightarrow> (\<exists>w'. process_all_items_cf px w = Some (Inr w') \<and>
                item_pages w' = item_pages w @ [1..L])) \<and>
   (fetch_items net page w = (r0, w0) \<and> handle_rate_limit net r0 w0 = Some (r, w1) \<and>
    body r = Parsed d \<and>
    process_entries net (case data d of None \<Rightarrow> [] | Some l \<Rightarrow> l) w1 = Some (Inr w2)
      \<longrightarrow> items_loop net page w =
            (if last_page_of d page \<le> page then Some (Inr w2)
             else items_loop net (page + 1) (sleep PAGE_DELAY w2))) \<and>
   (fetch_items_cf px page w = (Some (Parsed d), v1) \<and> data d = Some es \<and>
    process_entries_cf px es v1 = Some (Inr v2)
      \<longrightarrow> items_loop_cf px page w =
            (if last_page_of d page \<le> page then Some (Inr v2)
             else items_loop_cf px (page + 1) (sleep 600 v2))) \<and>
   (meta d = None \<or> (\<exists>m. meta d = Some m \<and> lastPage m = None)
      \<longrightarrow> last_page_of d page = page) \<and>
   (\<forall>m n. meta d = Some m \<and> lastPage m = Some n \<longrightarrow> last_page_of d page = n)"
proof -
  have a: "\<exists>w'. process_all_items net w = Some (Inr w') \<and>
                item_pages w' = item_pages w @ [1..L]"
    if "\<forall>t p. \<exists>st d m. net t (ItemsPage p) = (st, Parsed d) \<and> st \<noteq> 429 \<and>
        meta d = Some m \<and> lastPage m = Some L"
      and "\<forall>es v. \<exists>v'. process_entries net es v = Some (Inr v')" and "1 \<le> L"
    unfolding process_all_items_def using that by (rule items_loop_pages)
  have b: "\<exists>w'. process_all_items_cf px w = Some (Inr w') \<and>
                item_pages w' = item_pages w @ [1..L]"
    if "\<forall>t p. \<exists>d es m. px t (ItemsPage p) = Solution (Parsed d) \<and> data d = Some es \<and>
        meta d = Some m \<and> lastPage m = Some L"
      and "\<forall>es v. \<exists>v'. process_entries_cf px es v = Some (Inr v')" and "1 \<le> L"
    unfolding process_all_items_cf_def using that by (rule items_loop_cf_pages)
  note c = items_loop_parsed [of net page w r0 w0 r w1 d w2]
  note d = items_loop_cf_parsed [of px page w d v1 es v2]
  note f = last_page_of_missing [of d page]
  have g: "\<forall>m n. meta d = Some m \<and> lastPage m = Some n \<longrightarrow> last_page_of d page = n"
    by (simp add: last_page_of_def)
  show ?thesis
    apply (intro conjI)
    subgoal using a by blast
    subgoal using b by blast
    subgoal using c by blast
    subgoal using d by blast
    subgoal using f by blast
    subgoal using g by blast
    done
qed

lemma three_page_sources:
  "pages_by (process_all_items net_three w_init) = Some [1, 2, 3] \<and>
   pages_by (process_all_items_cf px_three w_init) = Some [1, 2, 3]"
proof -
  have s1: "\<forall>t p. \<exists>st d m. net_three t (ItemsPage p) = (st, Parsed d) \<and> st \<noteq> 429 \<and>
        meta d = Some m \<and> lastPage m = Some 3"
    by (simp add: net_three_def no_fields_def)
  have s2: "\<forall>t p. \<exists>d es m. px_three t (ItemsPage p) = Solution (Parsed d) \<and> data d = Some es \<and>
        meta d = Some m \<and> lastPage m = Some 3"
    by (simp add: px_three_def no_fields_def)
  have t1: "\<forall>es v. \<exists>v'. process_entries net_three es v = Some (Inr v')"
    using process_entries_net_three by blast
  have t2: "\<forall>es v. \<exists>v'. process_entries_cf px_three es v = Some (Inr v')"
    using process_entries_cf_px_three by blast
  from items_loop_checks_last_page [of net_three 3 w_init px_three] s1 s2 t1 t2
  have "(\<exists>w'. process_all_items net_three w_init = Some (Inr w') \<and>
            item_pages w' = item_pages w_init @ [1..3]) \<and>
        (\<exists>w'. process_all_items_cf px_three w_init = Some (Inr w') \<and>
            item_pages w' = item_pages w_init @ [1..3])"
    by simp
  then show ?thesis
    by (auto simp: pages_by_def upto_1_3 item_pages_w_init)
qed

lemma process_entries_net_no_data:
  "\<exists>v'. process_entries net_no_data es v = Some (Inr v')"
proof (induction es arbitrary: v)
  case Nil
  show ?case by simp
next
  case (Cons e es)
  let ?rq = "OwnersPage (entry_id e) 1"
  let ?v0 = "register e v"
  let ?d = "no_fields\<lparr>data := None, meta := Some \<lparr>lastPage = Some 3\<rparr>\<rparr>"
  let ?r = "\<lparr>status_code = 200, url = ?rq, body = Parsed ?d\<rparr>"
  have f: "fetch_owners net_no_data (entry_id e) 1 ?v0 = (?r, send ?rq ?v0)"
    by (simp add: fetch_owners_def requests_get_def net_no_data_def)
  have h: "handle_rate_limit net_no_data ?r (send ?rq ?v0) = Some (?r, send ?rq ?v0)"
    by (simp add: handle_rate_limit_pass)
  have "owners_loop net_no_data (entry_id e) 1 ?v0 = Some (Inr (send ?rq ?v0))"
    using owners_loop_empty [OF f h, of ?d] by (simp add: no_fields_def)
  with Cons.IH [of "send ?rq ?v0"] show ?case by (simp add: process_owners_def)
qed

text \<open>
  C4. The items loop is to stop exactly when the page number has reached the \<open>lastPage\<close> of
  the response, so that a source which always reports \<open>lastPage = 3\<close> is asked for pages 1, 2
  and 3 and no more. The direct script does so. The bypass script does not when page 3 comes
  without a \<open>data\<close> list: it passes the page over before it looks at \<open>lastPage\<close> and asks
  for page 4 as well. Its docstring says that an invalid response structure raises
  \<^verbatim>\<open>ValueError\<close>; nothing is raised. Both scripts are run here against the same answers.
\<close>

theorem bypass_skips_past_last_page:
  "pages_by (process_all_items_cf px_no_data w_init) = Some [1, 2, 3, 4] \<and>
   pages_by (process_all_items net_no_data w_init) = Some [1, 2, 3]"
proof -
  let ?full = "no_fields\<lparr>data := Some [], meta := Some \<lparr>lastPage = Some 3\<rparr>\<rparr>"
  let ?bare = "no_fields\<lparr>data := None, meta := Some \<lparr>lastPage = Some 3\<rparr>\<rparr>"
  let ?w1 = "send (ItemsPage 1) w_init"
  let ?w2 = "send (ItemsPage 2) (sleep 600 ?w1)"
  let ?w3 = "send (ItemsPage 3) (sleep 600 ?w2)"
  let ?w4 = "send (ItemsPage 4) ?w3"
  have lp: "\<And>p. last_page_of ?full p = 3" by (simp add: last_page_of_def no_fields_def)
  have dt: "data ?full = Some []" "data ?bare = None" by (simp_all add: no_fields_def)
  have f1: "fetch_items_cf px_no_data 1 w_init = (Some (Parsed ?full), ?w1)"
    by (rule fetch_items_cf_first) (simp add: px_no_data_def)
  have f2: "fetch_items_cf px_no_data 2 (sleep 600 ?w1) = (Some (Parsed ?full), ?w2)"
    by (rule fetch_items_cf_first) (simp add: px_no_data_def)
  have f3: "fetch_items_cf px_no_data 3 (sleep 600 ?w2) = (Some (Parsed ?bare), ?w3)"
    by (rule fetch_items_cf_first) (simp add: px_no_data_def)
  have f4: "fetch_items_cf px_no_data 4 ?w3 = (Some (Parsed ?full), ?w4)"
    by (rule fetch_items_cf_first) (simp add: px_no_data_def)
  have "items_loop_cf px_no_data 1 w_init = items_loop_cf px_no_data 2 (sleep 600 ?w1)"
    using items_loop_cf_parsed [OF f1 dt(1) process_entries_cf.simps(1)] by (simp add: lp)
  also have "\<dots> = items_loop_cf px_no_data 3 (sleep 600 ?w2)"
    using items_loop_cf_parsed [OF f2 dt(1) process_entries_cf.simps(1)] by (simp add: lp)
  also have "\<dots> = items_loop_cf px_no_data 4 ?w3"
    using items_loop_cf_no_data [OF f3 dt(2)] by simp
  also have "\<dots> = Some (Inr ?w4)"
    using items_loop_cf_parsed [OF f4 dt(1) process_entries_cf.simps(1)] by (simp add: lp)
  finally have bypass: "pages_by (process_all_items_cf px_no_data w_init) = Some [1, 2, 3, 4]"
    by (simp add: pages_by_def process_all_items_cf_def item_pages_simps sleep_simps
        item_pages_w_init)
  have src: "\<forall>t p. \<exists>st d m. net_no_data t (ItemsPage p) = (st, Parsed d) \<and> st \<noteq> 429 \<and>
        meta d = Some m \<and> lastPage m = Some 3"
    by (simp add: net_no_data_def no_fields_def)
  have tot: "\<forall>es v. \<exists>v'. process_entries net_no_data es v = Some (Inr v')"
    using process_entries_net_no_data by blast
  have "1 \<le> (3 :: int)" by simp
  with src tot have "\<exists>w'. items_loop net_no_data 1 w_init = Some (Inr w') \<and>
      item_pages w' = item_pages w_init @ [1..3]"
    by (rule items_loop_pages)
  then have direct: "pages_by (process_all_items net_no_data w_init) = Some [1, 2, 3]"
    by (auto simp: pages_by_def process_all_items_def upto_1_3 item_pages_w_init)
  from bypass direct show ?thesis by simp
qed

section \<open>Properties of the snapshot store\<close>

lemma loads_dumps_owner: "loads (dumps (py_of_owner ow)) = py_of_owner ow"
  by (simp add: py_of_owner_def dict_of_def)

lemma loads_dumps_item: "loads (dumps (py_of_item it)) = py_of_item it"
  by (simp add: py_of_item_def dict_of_def loads_dumps_owner comp_def)

lemma loads_dumps_items:
  "loads (dumps (py_of_items its)) =
     PDict (dict_of (map (\<lambda>(k, it). (IdStr (key_str k), py_of_item it)) its))"
proof -
  have "map (\<lambda>(k, v). (IdStr k, loads v))
          (map (\<lambda>(k, v). (key_str k, dumps v)) (map (\<lambda>(k, it). (k, py_of_item it)) its)) =
        map (\<lambda>(k, it). (IdStr (key_str k), py_of_item it)) its"
    by (induction its) (auto simp: loads_dumps_item)
  then show ?thesis by (simp add: py_of_items_def del: map_map)
qed

lemma distinct_IdStr: "distinct (map IdStr xs) = distinct xs"
  by (simp add: distinct_map inj_on_def)

lemma keyed_distinct:
  assumes d: "distinct (map (key_str \<circ> fst) its)"
  shows "distinct (map fst (map (\<lambda>(k, it). (IdStr (key_str k), py_of_item it)) its))"
proof -
  have "map fst (map (\<lambda>(k, it). (IdStr (key_str k), py_of_item it)) its) =
      map IdStr (map (key_str \<circ> fst) its)"
    by (induction its) auto
  then show ?thesis using d by (simp only: distinct_IdStr)
qed

lemma loads_dumps_items_distinct:
  assumes "distinct (map (key_str \<circ> fst) its)"
  shows "loads (dumps (py_of_items its)) =
     py_of_items (map (\<lambda>(k, it). (IdStr (key_str k), it)) its)"
proof -
  let ?M = "map (\<lambda>(k, it). (IdStr (key_str k), py_of_item it)) its"
  from keyed_distinct [OF assms] have e2: "dict_of ?M = ?M"
    by (rule dict_of_distinct)
  have e3: "?M =
      map (\<lambda>(k, it). (k, py_of_item it)) (map (\<lambda>(k, it). (IdStr (key_str k), it)) its)"
    by (induction its) auto
  have "loads (dumps (py_of_items its)) = PDict (dict_of ?M)"
    by (rule loads_dumps_items)
  also have "\<dots> = PDict ?M"
    by (simp only: e2)
  also have "\<dots> = PDict (map (\<lambda>(k, it). (k, py_of_item it))
      (map (\<lambda>(k, it). (IdStr (key_str k), it)) its))"
    using e3 by (rule arg_cong)
  also have "\<dots> = py_of_items (map (\<lambda>(k, it). (IdStr (key_str k), it)) its)"
    by (simp only: py_of_items_def)
  finally show ?thesis .
qed

lemma str_keys_fixed:
  "\<forall>k\<in>fst ` set its. \<exists>s. k = IdStr s \<Longrightarrow>
     map (\<lambda>(k, it). (IdStr (key_str k), it)) its = its"
  by (induction its) auto

lemma str_keys_distinct:
  assumes "\<forall>k\<in>fst ` set its. \<exists>s. k = IdStr s" and "distinct (map fst its)"
  shows "distinct (map (key_str \<circ> fst) its)"
proof -
  from assms(1) have "map IdStr (map (key_str \<circ> fst) its) = map fst its"
    by (induction its) auto
  then have "distinct (map IdStr (map (key_str \<circ> fst) its))"
    using assms(2) by (simp only:)
  then show ?thesis by (simp only: distinct_IdStr)
qed

lemma str_of_int_10: "str_of_int 10 = ''10''"
  by (simp add: str_of_int_def)

text \<open>
  C9, as the scripts have it. Loading what was saved gives the decoded encoding of the
  snapshot. When the key strings of the ids are pairwise distinct, that is the snapshot with
  every id replaced by its key string, each with the name and the owner name and count pairs
  it had; for a snapshot keyed by strings it is the snapshot itself.
\<close>

theorem snapshot_round_trip:
  "load_json p (save_owners p w fs) = Some (loads (dumps (py_of_items (items w)))) \<and>
   (distinct (map (key_str \<circ> fst) (items w)) \<longrightarrow>
      load_json p (save_owners p w fs) =
        Some (py_of_items (map (\<lambda>(k, it). (IdStr (key_str k), it)) (items w)))) \<and>
   (distinct (map fst (items w)) \<and> (\<forall>k\<in>fst ` set (items w). \<exists>s. k = IdStr s) \<longrightarrow>
      load_json p (save_owners p w fs) = Some (py_of_items (items w)))"
proof -
  have a: "load_json p (save_owners p w fs) = Some (loads (dumps (py_of_items (items w))))"
    by (simp add: load_json_def save_owners_def)
  have b: "load_json p (save_owners p w fs) =
        Some (py_of_items (map (\<lambda>(k, it). (IdStr (key_str k), it)) (items w)))"
    if "distinct (map (key_str \<circ> fst) (items w))"
    using a loads_dumps_items_distinct [OF that] by simp
  have c: "load_json p (save_owners p w fs) = Some (py_of_items (items w))"
    if "distinct (map fst (items w))" and "\<forall>k\<in>fst ` set (items w). \<exists>s. k = IdStr s"
    using a loads_dumps_items_distinct [OF str_keys_distinct [OF that(2) that(1)]]
      str_keys_fixed [OF that(2)]
    by simp
  from a b c show ?thesis by blast
qed

theorem snapshot_round_trip_witness:
  "load_json ''owners.json'' (save_owners ''owners.json'' (w_init\<lparr>items := snap_hat\<rparr>) Map.empty) =
     Some (py_of_items
       [(IdStr ''10'', \<lparr>item_name = ''Hat'', owners = [\<lparr>name = ''x'', count = 2\<rparr>]\<rparr>)]) \<and>
   load_json ''owners.json'' (save_owners ''owners.json'' (w_init\<lparr>items := snap_str\<rparr>) Map.empty) =
     Some (py_of_items snap_str)"
proof -
  have d1: "distinct (map (key_str \<circ> fst) (items (w_init\<lparr>items := snap_hat\<rparr>)))"
    by (simp add: snap_hat_def)
  have d2: "distinct (map fst (items (w_init\<lparr>items := snap_str\<rparr>))) \<and>
      (\<forall>k\<in>fst ` set (items (w_init\<lparr>items := snap_str\<rparr>)). \<exists>s. k = IdStr s)"
    by (simp add: snap_str_def)
  from snapshot_round_trip [of "''owners.json''" "w_init\<lparr>items := snap_hat\<rparr>" Map.empty] d1
  have r1: "load_json ''owners.json''
      (save_owners ''owners.json'' (w_init\<lparr>items := snap_hat\<rparr>) Map.empty) =
      Some (py_of_items (map (\<lambda>(k, it). (IdStr (key_str k), it))
        (items (w_init\<lparr>items := snap_hat\<rparr>))))"
    by blast
  from snapshot_round_trip [of "''owners.json''" "w_init\<lparr>items := snap_str\<rparr>" Map.empty] d2
  have r2: "load_json ''owners.json''
      (save_owners ''owners.json'' (w_init\<lparr>items := snap_str\<rparr>) Map.empty) =
      Some (py_of_items (items (w_init\<lparr>items := snap_str\<rparr>)))"
    by blast
  from r1 r2 show ?thesis by (simp add: snap_hat_def str_of_int_10)
qed

text \<open>
  C9 as stated fails for an integer id: the snapshot that holds item 10 comes back keyed by
  the string \<open>10\<close>, which is not the value that was saved.
\<close>

theorem snapshot_ids_counterexample:
  "load_json ''owners.json'' (save_owners ''owners.json'' (w_init\<lparr>items := snap_hat\<rparr>) Map.empty) =
     Some (PDict [(IdStr ''10'',
       py_of_item \<lparr>item_name = ''Hat'', owners = [\<lparr>name = ''x'', count = 2\<rparr>]\<rparr>)]) \<and>
   py_of_items (items (w_init\<lparr>items := snap_hat\<rparr>)) =
     PDict [(IdInt 10,
       py_of_item \<lparr>item_name = ''Hat'', owners = [\<lparr>name = ''x'', count = 2\<rparr>]\<rparr>)] \<and>
   load_json ''owners.json'' (save_owners ''owners.json'' (w_init\<lparr>items := snap_hat\<rparr>) Map.empty)
     \<noteq> Some (py_of_items (items (w_init\<lparr>items := snap_hat\<rparr>)))"
proof -
  let ?hat = "\<lparr>item_name = ''Hat'', owners = [\<lparr>name = ''x'', count = 2\<rparr>]\<rparr>"
  have a: "load_json ''owners.json''
      (save_owners ''owners.json'' (w_init\<lparr>items := snap_hat\<rparr>) Map.empty) =
      Some (loads (dumps (py_of_items snap_hat)))"
    by (simp add: load_json_def save_owners_def)
  have b: "loads (dumps (py_of_items snap_hat)) = PDict [(IdStr ''10'', py_of_item ?hat)]"
    unfolding loads_dumps_items by (simp add: snap_hat_def dict_of_def str_of_int_10)
  have c: "py_of_items (items (w_init\<lparr>items := snap_hat\<rparr>)) = PDict [(IdInt 10, py_of_item ?hat)]"
    by (simp add: py_of_items_def snap_hat_def)
  from a b c show ?thesis by simp
qed

section \<open>A complete run\<close>

text \<open>
  Against the one-page store, the direct script requests the items page and the owners page
  once each and leaves item 10 with the single owner \<open>x\<close>, counted twice.
\<close>

lemma scenario_hat:
  "process_all_items net_hat w_init =
     Some (Inr \<lparr>items = [(IdInt 10, \<lparr>item_name = ''Hat'', owners = [\<lparr>name = ''x'', count = 2\<rparr>]\<rparr>)],
                trace = [Request (ItemsPage 1), Request (OwnersPage (IdInt 10) 1)],
                clock = 2\<rparr>)"
proof -
  let ?e = "\<lparr>entry_id = IdInt 10, entry_name = Some ''Hat''\<rparr>"
  let ?di = "no_fields\<lparr>data := Some [?e], meta := Some \<lparr>lastPage = Some 1\<rparr>\<rparr>"
  let ?do = "no_fields\<lparr>inventories := Some [\<lparr>user = Some \<lparr>username = Some ''x''\<rparr>\<rparr>,
                                   \<lparr>user = Some \<lparr>username = Some ''x''\<rparr>\<rparr>],
              pages := Some 1\<rparr>"
  let ?w1 = "send (ItemsPage 1) w_init"
  let ?w2 = "send (OwnersPage (IdInt 10) 1) (register ?e ?w1)"
  let ?end = "\<lparr>items = [(IdInt 10, \<lparr>item_name = ''Hat'', owners = [\<lparr>name = ''x'', count = 2\<rparr>]\<rparr>)],
                trace = [Request (ItemsPage 1), Request (OwnersPage (IdInt 10) 1)],
                clock = 2\<rparr>"
  have fo: "fetch_owners net_hat (IdInt 10) 1 (register ?e ?w1) =
      (\<lparr>status_code = 200, url = OwnersPage (IdInt 10) 1, body = Parsed ?do\<rparr>, ?w2)"
    by (simp add: fetch_owners_def requests_get_def net_hat_def)
  have po: "owners_page (IdInt 10) 1 ?do ?w2 = Stop ?end"
    by (simp add: owners_page_def no_fields_def send_def register_def w_init_def add_owner_def
        dict_get_def merge_inv_def username_of_def)
  have ol: "owners_loop net_hat (IdInt 10) 1 (register ?e ?w1) = Some (Inr ?end)"
    using owners_loop_parsed [OF fo handle_rate_limit_pass, of ?do] po by simp
  have pe: "process_entries net_hat (case data ?di of None \<Rightarrow> [] | Some l \<Rightarrow> l) ?w1 =
      Some (Inr ?end)"
    using ol by (simp add: no_fields_def process_owners_def)
  have fi: "fetch_items net_hat 1 w_init =
      (\<lparr>status_code = 200, url = ItemsPage 1, body = Parsed ?di\<rparr>, ?w1)"
    by (simp add: fetch_items_def requests_get_def net_hat_def)
  show ?thesis
    unfolding process_all_items_def
    using items_loop_parsed [OF fi handle_rate_limit_pass _ pe]
    by (simp add: last_page_of_def no_fields_def)
qed

end
